theory Spec2Isabelle
  imports Main "HOL-Library.Word" "HOL-Library.Multiset"
begin

section \<open>Object graph (graph/types.go, graph/graph.go)\<close>

text \<open>
  \<^verbatim>\<open>type ObjID uint64\<close>; an \<^verbatim>\<open>Object\<close> has an id, a type name, a size and a slice of
  pointer ids. A Go slice may be \<^verbatim>\<open>nil\<close>, which \<^verbatim>\<open>Dominators\<close> tests for, so \<open>Ptrs\<close>
  is an optional list: \<open>None\<close> is the nil slice.
\<close>

type_synonym ObjID = "64 word"

record Object =
  ID :: ObjID
  Type :: string
  Size :: "64 word"
  Ptrs :: "ObjID list option"

text \<open>Ranging over a nil slice runs no iteration.\<close>

definition ptrs_of :: "Object \<Rightarrow> ObjID list" where
  "ptrs_of obj = (case Ptrs obj of None \<Rightarrow> [] | Some ps \<Rightarrow> ps)"

text \<open>
  \<^verbatim>\<open>MemGraph\<close> holds \<^verbatim>\<open>objects map[ObjID]*Object\<close> and the roots (\<^verbatim>\<open>Roots{IDs []ObjID}\<close>,
  kept here as the list of ids).
\<close>

record MemGraph =
  objects :: "ObjID \<rightharpoonup> Object"
  roots :: "ObjID list"

definition NewMemGraph :: MemGraph where
  "NewMemGraph = \<lparr>objects = Map.empty, roots = []\<rparr>"

definition AddObject :: "MemGraph \<Rightarrow> Object \<Rightarrow> MemGraph" where
  "AddObject g obj = g\<lparr>objects := (objects g)(ID obj \<mapsto> obj)\<rparr>"

definition GetObject :: "MemGraph \<Rightarrow> ObjID \<Rightarrow> Object option" where
  "GetObject g i = objects g i"

definition SetRoots :: "MemGraph \<Rightarrow> ObjID list \<Rightarrow> MemGraph" where
  "SetRoots g rs = g\<lparr>roots := rs\<rparr>"

definition GetRoots :: "MemGraph \<Rightarrow> ObjID list" where
  "GetRoots g = roots g"

text \<open>
  \<^verbatim>\<open>ForEachObject\<close> ranges over a Go map. The language leaves the order of such a
  range unspecified and the runtime randomises it, so the order is a parameter of the
  model: a list \<open>ord\<close> of keys. It is an iteration order of a map when it lists every
  key exactly once.
\<close>

definition iteration_order :: "('k \<rightharpoonup> 'v) \<Rightarrow> 'k list \<Rightarrow> bool" where
  "iteration_order m ord \<longleftrightarrow> distinct ord \<and> set ord = dom m"

definition ForEachObject :: "ObjID list \<Rightarrow> MemGraph \<Rightarrow> Object list" where
  "ForEachObject ord g = List.map_filter (objects g) ord"

text \<open>Every object is stored under its own id, which is what \<^verbatim>\<open>AddObject\<close> does.\<close>

definition keyed_by_id :: "MemGraph \<Rightarrow> bool" where
  "keyed_by_id g \<longleftrightarrow> (\<forall>k obj. objects g k = Some obj \<longrightarrow> ID obj = k)"

section \<open>Reverse edges (graph/reverse.go)\<close>

type_synonym ReverseEdges = "ObjID \<rightharpoonup> ObjID list"

text \<open>Reading a missing key of a map of slices gives the nil slice.\<close>

definition referrers :: "ReverseEdges \<Rightarrow> ObjID \<Rightarrow> ObjID list" where
  "referrers reverse k = (case reverse k of None \<Rightarrow> [] | Some xs \<Rightarrow> xs)"

definition add_referrer :: "ObjID \<Rightarrow> ReverseEdges \<Rightarrow> ObjID \<Rightarrow> ReverseEdges" where
  "add_referrer src reverse targetID = reverse(targetID \<mapsto> referrers reverse targetID @ [src])"

definition add_object_edges :: "ReverseEdges \<Rightarrow> Object \<Rightarrow> ReverseEdges" where
  "add_object_edges reverse obj = foldl (add_referrer (ID obj)) reverse (ptrs_of obj)"

definition BuildReverseEdges :: "ObjID list \<Rightarrow> MemGraph \<Rightarrow> ReverseEdges" where
  "BuildReverseEdges ord g = foldl add_object_edges Map.empty (ForEachObject ord g)"

section \<open>Paths to roots (graph/paths.go)\<close>

type_synonym Path = "ObjID list"
type_synonym searchNode = "ObjID \<times> ObjID list"

text \<open>
  The inner loop over the referrers of the dequeued node. It returns early (the
  \<^verbatim>\<open>break\<close>) once the result holds \<open>maxPaths\<close> paths.
\<close>

fun scan_referrers ::
  "(ObjID \<Rightarrow> bool) \<Rightarrow> int \<Rightarrow> ObjID list \<Rightarrow> ObjID list \<Rightarrow> Path list \<Rightarrow> searchNode list
    \<Rightarrow> Path list \<times> searchNode list" where
  "scan_referrers rootSet maxPaths path [] result queue = (result, queue)"
| "scan_referrers rootSet maxPaths path (referrerID # rest) result queue =
     (if referrerID \<in> set path then scan_referrers rootSet maxPaths path rest result queue
      else
        let newPath = path @ [referrerID] in
        if rootSet referrerID then
          (let result' = result @ [newPath] in
           if int (length result') \<ge> maxPaths then (result', queue)
           else scan_referrers rootSet maxPaths path rest result' queue)
        else scan_referrers rootSet maxPaths path rest result (queue @ [(referrerID, newPath)]))"

text \<open>What the inner loop adds to the queue: extensions of the path by a fresh id.\<close>

lemma scan_referrers_queue:
  "scan_referrers rootSet maxPaths path refs result queue = (result', queue') \<Longrightarrow>
   \<exists>new. queue' = queue @ new \<and> length new \<le> length refs \<and>
     (\<forall>n \<in> set new. \<exists>r. r \<in> set refs \<and> r \<notin> set path \<and> \<not> rootSet r \<and> n = (r, path @ [r]))"
proof (induction refs arbitrary: result queue)
  case Nil
  then show ?case by simp
next
  case (Cons r refs)
  show ?case
  proof (cases "r \<in> set path")
    case True
    with Cons.prems have "scan_referrers rootSet maxPaths path refs result queue = (result', queue')"
      by simp
    from Cons.IH [OF this] show ?thesis by fastforce
  next
    case False
    show ?thesis
    proof (cases "rootSet r")
      case True
      show ?thesis
      proof (cases "int (length (result @ [path @ [r]])) \<ge> maxPaths")
        case True
        with \<open>r \<notin> set path\<close> \<open>rootSet r\<close> Cons.prems have "queue' = queue"
          by (simp add: Let_def)
        then show ?thesis by simp
      next
        case False
        with \<open>r \<notin> set path\<close> \<open>rootSet r\<close> Cons.prems
        have "scan_referrers rootSet maxPaths path refs (result @ [path @ [r]]) queue = (result', queue')"
          by (simp add: Let_def)
        from Cons.IH [OF this] show ?thesis by fastforce
      qed
    next
      case False
      with \<open>r \<notin> set path\<close> Cons.prems
      have "scan_referrers rootSet maxPaths path refs result (queue @ [(r, path @ [r])]) = (result', queue')"
        by (simp add: Let_def)
      from Cons.IH [OF this] obtain new where
        new: "queue' = (queue @ [(r, path @ [r])]) @ new" "length new \<le> length refs"
          "\<forall>n \<in> set new. \<exists>r'. r' \<in> set refs \<and> r' \<notin> set path \<and> \<not> rootSet r' \<and> n = (r', path @ [r'])"
        by blast
      show ?thesis
      proof (intro exI conjI)
        show "queue' = queue @ ((r, path @ [r]) # new)" using new(1) by simp
        show "length ((r, path @ [r]) # new) \<le> length (r # refs)" using new(2) by simp
        show "\<forall>n \<in> set ((r, path @ [r]) # new).
          \<exists>r'. r' \<in> set (r # refs) \<and> r' \<notin> set path \<and> \<not> rootSet r' \<and> n = (r', path @ [r'])"
          using new(3) \<open>r \<notin> set path\<close> \<open>\<not> rootSet r\<close> by auto
      qed
    qed
  qed
qed

lemma card_unused_extend:
  fixes path :: "'a::finite list"
  assumes "r \<notin> set path"
  shows "card (- set path) = Suc (card (- set (path @ [r])))"
proof -
  have "- set (path @ [r]) = (- set path) - {r}" by auto
  moreover have "Suc (card ((- set path) - {r})) = card (- set path)"
    using assms by (intro card_Suc_Diff1) auto
  ultimately show ?thesis by simp
qed

definition max_referrers :: "ReverseEdges \<Rightarrow> nat" where
  "max_referrers reverse = Max (range (\<lambda>k. length (referrers reverse k)))"

definition unused_ids :: "ObjID list \<Rightarrow> nat" where
  "unused_ids path = card (- set path)"

definition node_weight :: "ReverseEdges \<Rightarrow> searchNode \<Rightarrow> nat" where
  "node_weight reverse n = (max_referrers reverse + 1) ^ unused_ids (snd n)"

definition queue_weight :: "ReverseEdges \<Rightarrow> searchNode list \<Rightarrow> nat" where
  "queue_weight reverse queue = sum_list (map (node_weight reverse) queue)"

lemma referrers_le_max: "length (referrers reverse k) \<le> max_referrers reverse"
  unfolding max_referrers_def by (rule Max_ge) auto

lemma node_weight_pos: "0 < node_weight reverse n"
  by (simp add: node_weight_def)

lemma extension_weight:
  assumes "r \<notin> set path"
  shows "node_weight reverse (r, path @ [r]) * (max_referrers reverse + 1) = node_weight reverse (i, path)"
proof -
  have "unused_ids path = Suc (unused_ids (path @ [r]))"
    unfolding unused_ids_def using assms by (rule card_unused_extend)
  then show ?thesis by (simp add: node_weight_def)
qed

lemma new_nodes_weight:
  assumes "\<forall>n \<in> set new. \<exists>r. r \<notin> set path \<and> n = (r, path @ [r])"
  shows "queue_weight reverse new * (max_referrers reverse + 1) = length new * node_weight reverse (i, path)"
  using assms
proof (induction new)
  case Nil
  then show ?case by (simp add: queue_weight_def)
next
  case (Cons n new)
  then obtain r where r: "r \<notin> set path" "n = (r, path @ [r])" by auto
  have "queue_weight reverse new * (max_referrers reverse + 1) = length new * node_weight reverse (i, path)"
    using Cons by simp
  then show ?case using extension_weight [OF r(1), of reverse i] r(2)
    by (simp add: queue_weight_def algebra_simps)
qed

lemma queue_weight_decreases:
  assumes "scan_referrers rootSet maxPaths (snd node) (referrers reverse (fst node)) result queue = (result', queue')"
  shows "queue_weight reverse queue' < queue_weight reverse (node # queue)"
proof -
  from scan_referrers_queue [OF assms] obtain new where
    new: "queue' = queue @ new" "length new \<le> length (referrers reverse (fst node))"
      "\<forall>n \<in> set new. \<exists>r. r \<in> set (referrers reverse (fst node)) \<and> r \<notin> set (snd node) \<and> \<not> rootSet r \<and> n = (r, snd node @ [r])"
    by blast
  let ?M = "max_referrers reverse + 1"
  have len: "length new < ?M" using new(2) referrers_le_max [of reverse "fst node"] by simp
  have "queue_weight reverse new * ?M = length new * node_weight reverse (fst node, snd node)"
    using new(3) by (intro new_nodes_weight) blast
  also have "\<dots> = length new * node_weight reverse node" by simp
  also have "\<dots> < ?M * node_weight reverse node"
    using len node_weight_pos [of reverse node] by (rule mult_strict_right_mono)
  also have "\<dots> = node_weight reverse node * ?M" by (rule mult.commute)
  finally have "queue_weight reverse new < node_weight reverse node"
    by (simp only: mult_less_cancel2)
  then show ?thesis using new(1) by (simp add: queue_weight_def)
qed

function bfs_loop ::
  "ReverseEdges \<Rightarrow> (ObjID \<Rightarrow> bool) \<Rightarrow> int \<Rightarrow> searchNode list \<Rightarrow> Path list \<Rightarrow> Path list" where
  "bfs_loop reverse rootSet maxPaths [] result = result"
| "bfs_loop reverse rootSet maxPaths (node # queue) result =
     (if int (length result) < maxPaths then
        (case scan_referrers rootSet maxPaths (snd node) (referrers reverse (fst node)) result queue of
           (result', queue') \<Rightarrow> bfs_loop reverse rootSet maxPaths queue' result')
      else result)"
  by pat_completeness auto
termination
  apply (relation "measure (\<lambda>(reverse, rootSet, maxPaths, queue, result). queue_weight reverse queue)")
   apply simp
  apply (simp only: in_measure prod.case)
  apply (rule queue_weight_decreases)
  apply (erule sym)
  done

definition PathsToRoots :: "ObjID list \<Rightarrow> MemGraph \<Rightarrow> ObjID \<Rightarrow> int \<Rightarrow> Path list" where
  "PathsToRoots ord g from maxPaths =
     (if maxPaths \<le> 0 then []
      else
        let reverse = BuildReverseEdges ord g;
            rootSet = (\<lambda>i. i \<in> set (GetRoots g))
        in if rootSet from then [[from]]
           else bfs_loop reverse rootSet maxPaths [(from, [from])] [])"


text \<open>
  Validity of an emitted path: \<open>points_to g a b\<close> says that \<open>a\<close> is in the pointer list of
  the object stored under \<open>b\<close>.
\<close>

definition points_to :: "MemGraph \<Rightarrow> ObjID \<Rightarrow> ObjID \<Rightarrow> bool" where
  "points_to g a b \<longleftrightarrow> (case objects g b of None \<Rightarrow> False | Some obj \<Rightarrow> a \<in> set (ptrs_of obj))"

definition linked :: "MemGraph \<Rightarrow> Path \<Rightarrow> bool" where
  "linked g p \<longleftrightarrow> (\<forall>i < length p - 1. points_to g (p ! i) (p ! Suc i))"

definition valid_path :: "MemGraph \<Rightarrow> ObjID \<Rightarrow> Path \<Rightarrow> bool" where
  "valid_path g from p \<longleftrightarrow>
     p \<noteq> [] \<and> hd p = from \<and> linked g p \<and> last p \<in> set (roots g) \<and> distinct p"

section \<open>Immediate dominators (graph/dominators.go)\<close>

text \<open>
  The algorithm is imperative: a depth-first numbering, then the Lengauer-Tarjan passes
  over maps that the closures update in place. The model threads those maps through as
  a record. An index past the end of the \<^verbatim>\<open>vertex\<close> slice panics in Go, and a recursion
  bounded here by an explicit depth may exceed it: both are error results.
\<close>

datatype run_error = IndexOutOfRange | DepthExceeded

fun then_do :: "'e + 'a \<Rightarrow> ('a \<Rightarrow> 'e + 'b) \<Rightarrow> 'e + 'b" where
  "then_do (Inl e) f = Inl e"
| "then_do (Inr x) f = f x"

fun for_each :: "('a \<Rightarrow> 's \<Rightarrow> 'e + 's) \<Rightarrow> 'a list \<Rightarrow> 's \<Rightarrow> 'e + 's" where
  "for_each f [] s = Inr s"
| "for_each f (x # xs) s = then_do (f x s) (for_each f xs)"

text \<open>Reading a key that a Go map does not hold gives the zero value of the value type.\<close>

definition get0 :: "('k \<rightharpoonup> 'v::zero) \<Rightarrow> 'k \<Rightarrow> 'v" where
  "get0 m k = (case m k of None \<Rightarrow> 0 | Some v \<Rightarrow> v)"

definition get_list :: "('k \<rightharpoonup> 'v list) \<Rightarrow> 'k \<Rightarrow> 'v list" where
  "get_list m k = (case m k of None \<Rightarrow> [] | Some vs \<Rightarrow> vs)"

definition at :: "'a list \<Rightarrow> int \<Rightarrow> run_error + 'a" where
  "at xs i = (if 0 \<le> i \<and> i < int (length xs) then Inr (xs ! nat i) else Inl IndexOutOfRange)"

type_synonym Adj = "ObjID \<rightharpoonup> ObjID list"

text \<open>
  The adjacency map: the super-root, id 0, points to the roots; then every object with a
  non-nil pointer slice gets a copy of it under its own id.
\<close>

definition build_adj :: "Object list \<Rightarrow> ObjID list \<Rightarrow> Adj" where
  "build_adj allObjects rootIDs =
     foldl (\<lambda>adj obj. case Ptrs obj of None \<Rightarrow> adj | Some ps \<Rightarrow> adj(ID obj \<mapsto> ps))
       (if length rootIDs > 0 then [0 \<mapsto> rootIDs] else Map.empty) allObjects"

record lt_state =
  dfsNum :: int
  vertex :: "ObjID list"
  parent :: "ObjID \<rightharpoonup> int"
  dfnum :: "ObjID \<rightharpoonup> int"
  semi :: "ObjID \<rightharpoonup> int"
  ancestor :: "ObjID \<rightharpoonup> int"
  idom :: "ObjID \<rightharpoonup> ObjID"
  samedom :: "ObjID \<rightharpoonup> ObjID"
  best :: "ObjID \<rightharpoonup> ObjID"
  bucket :: "int \<rightharpoonup> ObjID list"

definition init_state :: lt_state where
  "init_state = \<lparr>dfsNum = 0, vertex = [], parent = Map.empty, dfnum = Map.empty,
     semi = Map.empty, ancestor = Map.empty, idom = Map.empty, samedom = Map.empty,
     best = Map.empty, bucket = Map.empty\<rparr>"

definition visit :: "ObjID \<Rightarrow> int \<Rightarrow> lt_state \<Rightarrow> lt_state" where
  "visit v p s = s\<lparr>dfnum := (dfnum s)(v \<mapsto> dfsNum s),
     vertex := vertex s @ [v],
     parent := (parent s)(v \<mapsto> p),
     semi := (semi s)(v \<mapsto> dfsNum s),
     ancestor := (ancestor s)(v \<mapsto> - 1),
     best := (best s)(v \<mapsto> v),
     samedom := (samedom s)(v \<mapsto> v),
     dfsNum := dfsNum s + 1\<rparr>"

text \<open>
  \<^verbatim>\<open>dfs(v, p)\<close>. Each nested call that does not return at once visits a new vertex, so
  the nesting is bounded by the number of vertices; \<open>depth\<close> is that bound.
\<close>

fun dfs :: "nat \<Rightarrow> Adj \<Rightarrow> ObjID \<Rightarrow> int \<Rightarrow> lt_state \<Rightarrow> run_error + lt_state"
  and dfs_each :: "nat \<Rightarrow> Adj \<Rightarrow> ObjID list \<Rightarrow> int \<Rightarrow> lt_state \<Rightarrow> run_error + lt_state" where
  "dfs 0 adj v p s = Inl DepthExceeded"
| "dfs (Suc depth) adj v p s =
     (case dfnum s v of
        Some n \<Rightarrow> Inr s
      | None \<Rightarrow> dfs_each depth adj (get_list adj v) (dfsNum s) (visit v p s))"
| "dfs_each depth adj [] p s = Inr s"
| "dfs_each depth adj (w # ws) p s =
     (case dfs depth adj w p s of
        Inl e \<Rightarrow> Inl e
      | Inr s' \<Rightarrow> dfs_each depth adj ws p s')"

text \<open>\<^verbatim>\<open>compress\<close> follows the ancestor chain, which is no longer than the vertex list.\<close>

fun compress :: "nat \<Rightarrow> ObjID \<Rightarrow> lt_state \<Rightarrow> run_error + lt_state" where
  "compress 0 v s = Inl DepthExceeded"
| "compress (Suc depth) v s =
     (let anc = get0 (ancestor s) v in
      if anc = - 1 then Inr s
      else
        (case at (vertex s) anc of
           Inl e \<Rightarrow> Inl e
         | Inr ancID \<Rightarrow>
             if get0 (ancestor s) ancID \<noteq> - 1 then
               (case compress depth ancID s of
                  Inl e \<Rightarrow> Inl e
                | Inr s1 \<Rightarrow>
                    let s2 = (if get0 (semi s1) (get0 (best s1) ancID) < get0 (semi s1) (get0 (best s1) v)
                              then s1\<lparr>best := (best s1)(v \<mapsto> get0 (best s1) ancID)\<rparr>
                              else s1)
                    in Inr (s2\<lparr>ancestor := (ancestor s2)(v \<mapsto> get0 (ancestor s2) ancID)\<rparr>))
             else Inr s))"

definition eval :: "ObjID \<Rightarrow> lt_state \<Rightarrow> run_error + (ObjID \<times> lt_state)" where
  "eval v s =
     (if get0 (ancestor s) v = - 1 then Inr (v, s)
      else then_do (compress (Suc (length (vertex s))) v s) (\<lambda>s'. Inr (get0 (best s') v, s')))"

definition link :: "ObjID \<Rightarrow> int \<Rightarrow> lt_state \<Rightarrow> lt_state" where
  "link v w s = s\<lparr>ancestor := (ancestor s)(v \<mapsto> w)\<rparr>"

definition processEdge :: "ObjID \<Rightarrow> ObjID \<Rightarrow> lt_state \<Rightarrow> run_error + lt_state" where
  "processEdge v w s =
     (case dfnum s v of
        None \<Rightarrow> Inr s
      | Some vNum \<Rightarrow>
          let wNum = get0 (dfnum s) w in
          then_do (if vNum \<le> wNum then Inr (v, s) else eval v s) (\<lambda>(u, s').
            Inr (if get0 (semi s') u < get0 (semi s') w
                 then s'\<lparr>semi := (semi s')(w \<mapsto> get0 (semi s') u)\<rparr>
                 else s')))"

text \<open>
  The sources of the calls \<^verbatim>\<open>processEdge(v.ID, w, ...)\<close> for one \<open>w\<close>, in the order the two
  loops make them: every pointer equal to \<open>w\<close> of every object, then every entry equal
  to \<open>w\<close> of \<^verbatim>\<open>adj[0]\<close>.
\<close>

definition edges_into :: "Object list \<Rightarrow> Adj \<Rightarrow> ObjID \<Rightarrow> ObjID list" where
  "edges_into allObjects adj w =
     concat (map (\<lambda>v. map (\<lambda>ptr. ID v) (filter (\<lambda>ptr. ptr = w) (ptrs_of v))) allObjects)
     @ map (\<lambda>ptr. 0) (filter (\<lambda>ptr. ptr = w) (get_list adj 0))"

text \<open>Step 3 for one vertex of the parent's bucket.\<close>

definition resolve :: "int \<Rightarrow> ObjID \<Rightarrow> lt_state \<Rightarrow> run_error + lt_state" where
  "resolve pw v s =
     then_do (eval v s) (\<lambda>(u, s').
       if get0 (semi s') u = get0 (semi s') v
       then then_do (at (vertex s') pw) (\<lambda>d. Inr (s'\<lparr>idom := (idom s')(v \<mapsto> d)\<rparr>))
       else Inr (s'\<lparr>samedom := (samedom s')(v \<mapsto> u)\<rparr>))"

text \<open>The body of the loop \<^verbatim>\<open>for i := dfsNum - 1; i > 0; i--\<close>.\<close>

definition process_vertex :: "Object list \<Rightarrow> Adj \<Rightarrow> int \<Rightarrow> lt_state \<Rightarrow> run_error + lt_state" where
  "process_vertex allObjects adj i s =
     then_do (at (vertex s) i) (\<lambda>w.
     then_do (for_each (\<lambda>v. processEdge v w) (edges_into allObjects adj w) s) (\<lambda>s1.
       let sw = get0 (semi s1) w;
           s2 = s1\<lparr>bucket := (bucket s1)(sw \<mapsto> get_list (bucket s1) sw @ [w])\<rparr>;
           pw = get0 (parent s2) w;
           s3 = (if pw \<noteq> - 1 then link w pw s2 else s2)
       in then_do (for_each (resolve pw) (get_list (bucket s3) pw) s3) (\<lambda>s4.
            Inr (s4\<lparr>bucket := (bucket s4)(pw \<mapsto> [])\<rparr>))))"

fun reverse_pass :: "Object list \<Rightarrow> Adj \<Rightarrow> nat \<Rightarrow> lt_state \<Rightarrow> run_error + lt_state" where
  "reverse_pass allObjects adj 0 s = Inr s"
| "reverse_pass allObjects adj (Suc k) s =
     then_do (process_vertex allObjects adj (int (Suc k)) s) (reverse_pass allObjects adj k)"

text \<open>Step 4, the body of \<^verbatim>\<open>for i := 1; i < dfsNum; i++\<close>.\<close>

definition settle :: "int \<Rightarrow> lt_state \<Rightarrow> run_error + lt_state" where
  "settle i s =
     then_do (at (vertex s) i) (\<lambda>w.
       Inr (if get0 (samedom s) w \<noteq> w
            then s\<lparr>idom := (idom s)(w \<mapsto> get0 (idom s) (get0 (samedom s) w))\<rparr>
            else s))"

definition dfs_depth :: "Object list \<Rightarrow> ObjID list \<Rightarrow> nat" where
  "dfs_depth allObjects rootIDs =
     2 + length rootIDs + sum_list (map (\<lambda>obj. length (ptrs_of obj)) allObjects)"

text \<open>
  \<^verbatim>\<open>Dominators(g)\<close>, with the order in which \<^verbatim>\<open>ForEachObject\<close> fills \<^verbatim>\<open>allObjects\<close> as
  parameter. The entry of id 0 is deleted from the result.
\<close>

definition Dominators :: "ObjID list \<Rightarrow> MemGraph \<Rightarrow> run_error + (ObjID \<rightharpoonup> ObjID)" where
  "Dominators ord g =
     (let allObjects = ForEachObject ord g;
          adj = build_adj allObjects (GetRoots g)
      in then_do (dfs (dfs_depth allObjects (GetRoots g)) adj 0 (- 1) init_state) (\<lambda>s0.
         then_do (reverse_pass allObjects adj (nat (dfsNum s0 - 1)) s0) (\<lambda>s1.
         then_do (for_each settle (map int [1..<nat (dfsNum s1)]) s1) (\<lambda>s2.
         Inr ((idom s2)(0 := None))))))"

text \<open>
  \<^verbatim>\<open>DominatorTree(idom)\<close> ranges twice over the map \<^verbatim>\<open>idom\<close>; the two orders are
  parameters.
\<close>

definition DominatorTree ::
  "ObjID list \<Rightarrow> ObjID list \<Rightarrow> (ObjID \<rightharpoonup> ObjID) \<Rightarrow> (ObjID \<rightharpoonup> ObjID list)" where
  "DominatorTree ord1 ord2 idoms =
     (let tree0 = foldl (\<lambda>tree node. case idoms node of None \<Rightarrow> tree | Some d \<Rightarrow> tree(node \<mapsto> []))
                    Map.empty ord1;
          tree1 = tree0(0 \<mapsto> [])
      in foldl (\<lambda>tree node. case idoms node of
                   None \<Rightarrow> tree
                 | Some d \<Rightarrow> tree(d \<mapsto> get_list tree d @ [node])) tree1 ord2)"

section \<open>Retained size (graph/retained.go)\<close>

text \<open>
  \<^verbatim>\<open>computeRetained\<close> is a memoising recursion over the dominator tree; sizes are
  \<^verbatim>\<open>uint64\<close> and their sum wraps. The nesting is bounded by \<open>depth\<close>.
\<close>

fun computeRetained ::
    "nat \<Rightarrow> (ObjID \<rightharpoonup> 64 word) \<Rightarrow> (ObjID \<rightharpoonup> ObjID list) \<Rightarrow> ObjID \<Rightarrow> (ObjID \<rightharpoonup> 64 word)
      \<Rightarrow> run_error + (64 word \<times> (ObjID \<rightharpoonup> 64 word))"
  and add_children ::
    "nat \<Rightarrow> (ObjID \<rightharpoonup> 64 word) \<Rightarrow> (ObjID \<rightharpoonup> ObjID list) \<Rightarrow> ObjID list \<Rightarrow> 64 word
      \<Rightarrow> (ObjID \<rightharpoonup> 64 word) \<Rightarrow> run_error + (64 word \<times> (ObjID \<rightharpoonup> 64 word))" where
  "computeRetained 0 objSizes tree nodeID retained = Inl DepthExceeded"
| "computeRetained (Suc depth) objSizes tree nodeID retained =
     (case retained nodeID of
        Some sz \<Rightarrow> Inr (sz, retained)
      | None \<Rightarrow>
          (case add_children depth objSizes tree (get_list tree nodeID) (get0 objSizes nodeID) retained of
             Inl e \<Rightarrow> Inl e
           | Inr (sz, retained') \<Rightarrow> Inr (sz, retained'(nodeID \<mapsto> sz))))"
| "add_children depth objSizes tree [] sz retained = Inr (sz, retained)"
| "add_children depth objSizes tree (child # rest) sz retained =
     (case computeRetained depth objSizes tree child retained of
        Inl e \<Rightarrow> Inl e
      | Inr (c, retained') \<Rightarrow> add_children depth objSizes tree rest (sz + c) retained')"

text \<open>
  The iteration orders of \<^verbatim>\<open>RetainedSize\<close>: of the object map inside \<^verbatim>\<open>Dominators\<close>, of the
  \<^verbatim>\<open>idom\<close> map in the two loops of \<^verbatim>\<open>DominatorTree\<close>, of the object map when the sizes
  are collected, and of the tree map.
\<close>

record retained_orders =
  dominators_order :: "ObjID list"
  tree_init_order :: "ObjID list"
  tree_fill_order :: "ObjID list"
  sizes_order :: "ObjID list"
  nodes_order :: "ObjID list"

definition object_sizes :: "Object list \<Rightarrow> (ObjID \<rightharpoonup> 64 word)" where
  "object_sizes objs = (foldl (\<lambda>m obj. m(ID obj \<mapsto> Size obj)) Map.empty objs)(0 \<mapsto> 0)"

definition retained_of_tree ::
  "ObjID list \<Rightarrow> (ObjID \<rightharpoonup> 64 word) \<Rightarrow> (ObjID \<rightharpoonup> ObjID list) \<Rightarrow> run_error + (ObjID \<rightharpoonup> 64 word)" where
  "retained_of_tree ord objSizes tree =
     then_do (for_each (\<lambda>nodeID retained.
                then_do (computeRetained (Suc (length ord)) objSizes tree nodeID retained)
                  (\<lambda>(sz, retained'). Inr retained')) ord Map.empty)
       (\<lambda>retained. Inr (retained(0 := None)))"

definition RetainedSize :: "retained_orders \<Rightarrow> MemGraph \<Rightarrow> run_error + (ObjID \<rightharpoonup> 64 word)" where
  "RetainedSize os g =
     then_do (Dominators (dominators_order os) g) (\<lambda>dominators.
       let tree = DominatorTree (tree_init_order os) (tree_fill_order os) dominators;
           objSizes = object_sizes (ForEachObject (sizes_order os) g)
       in retained_of_tree (nodes_order os) objSizes tree)"

text \<open>The orders given to \<open>RetainedSize\<close> are iteration orders of the maps they range over.\<close>

definition retained_orders_ok :: "retained_orders \<Rightarrow> MemGraph \<Rightarrow> bool" where
  "retained_orders_ok os g \<longleftrightarrow>
     iteration_order (objects g) (dominators_order os) \<and>
     iteration_order (objects g) (sizes_order os) \<and>
     (case Dominators (dominators_order os) g of
        Inl e \<Rightarrow> True
      | Inr dominators \<Rightarrow>
          iteration_order dominators (tree_init_order os) \<and>
          iteration_order dominators (tree_fill_order os) \<and>
          iteration_order (DominatorTree (tree_init_order os) (tree_fill_order os) dominators)
            (nodes_order os))"

section \<open>Reading a byte stream (heapdump/goheap/parser.go, streaming.go)\<close>

text \<open>
  Both parsers wrap their input in a \<^verbatim>\<open>bufio.Reader\<close> and read it front to back. The
  model of the stream is the list of bytes not yet read; a read returns its result, or
  its error, together with the bytes left. The errors are values of one datatype: the
  library's sentinels, the messages the parsers build with \<^verbatim>\<open>fmt.Errorf\<close> (one
  constructor per message format, \<open>Wrapped\<close> for the \<^verbatim>\<open>%w\<close> forms), the error a callback
  returns, and \<open>Panic\<close> for a slice expression out of range.
\<close>

unbundle bit_operations_syntax

type_synonym byte = "8 word"

datatype dump_error =
    EOF
  | ErrUnexpectedEOF
  | ErrOverflow
  | StringTooLong "64 word"
  | ByteSliceTooLong "64 word"
  | InvalidHeader "byte list"
  | UnknownTag "64 word"
  | Wrapped string dump_error
  | SkipFailed "64 word" dump_error
  | CallbackError string
  | MissingID nat
  | ErrNoParser
  | ReadFailure string
  | Panic

type_synonym 'a reading = "(dump_error + 'a) \<times> byte list"

definition string_of :: "byte list \<Rightarrow> string" where
  "string_of bs = map (\<lambda>b. char_of (unat b)) bs"

definition bytes_of :: "string \<Rightarrow> byte list" where
  "bytes_of s = map of_char s"

text \<open>
  \<^verbatim>\<open>binary.ReadUvarint\<close> of the Go library: at most ten bytes, seven payload bits each,
  least significant group first; the tenth byte may only be 0 or 1. The end of the
  stream before the first byte is \<open>EOF\<close>, later it is \<open>ErrUnexpectedEOF\<close>.
\<close>

fun ReadUvarint_from :: "nat \<Rightarrow> 64 word \<Rightarrow> byte list \<Rightarrow> 64 word reading" where
  "ReadUvarint_from i x bs =
     (if i \<ge> 10 then (Inl ErrOverflow, bs)
      else
        (case bs of
           [] \<Rightarrow> (Inl (if i > 0 then ErrUnexpectedEOF else EOF), [])
         | b # rest \<Rightarrow>
             if b < 0x80 then
               (if i = 9 \<and> b > 1 then (Inl ErrOverflow, rest)
                else (Inr (x OR push_bit (7 * i) (ucast b)), rest))
             else ReadUvarint_from (Suc i) (x OR push_bit (7 * i) (ucast (b AND 0x7f))) rest))"

declare ReadUvarint_from.simps [simp del]

definition ReadUvarint :: "byte list \<Rightarrow> 64 word reading" where
  "ReadUvarint bs = ReadUvarint_from 0 0 bs"

text \<open>
  \<^verbatim>\<open>binary.ReadUvarint\<close> returns a number also when it returns an error: the groups it
  has read so far (\<^verbatim>\<open>return x, err\<close>). \<open>Uvarint_returned\<close> is the first result of the
  call, with or without an error.
\<close>

fun Uvarint_returned_from :: "nat \<Rightarrow> 64 word \<Rightarrow> byte list \<Rightarrow> 64 word" where
  "Uvarint_returned_from i x bs =
     (if i \<ge> 10 then x
      else
        (case bs of
           [] \<Rightarrow> x
         | b # rest \<Rightarrow>
             if b < 0x80 then
               (if i = 9 \<and> b > 1 then x else x OR push_bit (7 * i) (ucast b))
             else Uvarint_returned_from (Suc i) (x OR push_bit (7 * i) (ucast (b AND 0x7f))) rest))"

declare Uvarint_returned_from.simps [simp del]

definition Uvarint_returned :: "byte list \<Rightarrow> 64 word" where
  "Uvarint_returned bs = Uvarint_returned_from 0 0 bs"

text \<open>
  \<^verbatim>\<open>io.ReadFull\<close> into a buffer of \<open>n\<close> bytes: all \<open>n\<close> bytes, or \<open>EOF\<close> when there is
  none to read, or \<open>ErrUnexpectedEOF\<close> when the stream ends before the buffer is full.
\<close>

definition ReadFull :: "nat \<Rightarrow> byte list \<Rightarrow> byte list reading" where
  "ReadFull n bs =
     (if n \<le> length bs then (Inr (take n bs), drop n bs)
      else (Inl (if bs = [] then EOF else ErrUnexpectedEOF), []))"

text \<open>Sequencing of reads: the first error ends the sequence.\<close>

definition then_read ::
  "(byte list \<Rightarrow> 'a reading) \<Rightarrow> ('a \<Rightarrow> byte list \<Rightarrow> 'b reading) \<Rightarrow> byte list \<Rightarrow> 'b reading" where
  "then_read m f bs = (case m bs of (Inl e, bs') \<Rightarrow> (Inl e, bs') | (Inr x, bs') \<Rightarrow> f x bs')"

definition ok :: "'a \<Rightarrow> byte list \<Rightarrow> 'a reading" where
  "ok x bs = (Inr x, bs)"

definition failed :: "dump_error \<Rightarrow> byte list \<Rightarrow> 'a reading" where
  "failed e bs = (Inl e, bs)"

text \<open>\<^verbatim>\<open>data[lo:hi]\<close> with \<^verbatim>\<open>uint64\<close> bounds panics unless \<open>lo \<le> hi \<le> cap(data)\<close>.\<close>

definition slice :: "byte list \<Rightarrow> 64 word \<Rightarrow> 64 word \<Rightarrow> dump_error + byte list" where
  "slice data lo hi =
     (if unat lo \<le> unat hi \<and> unat hi \<le> length data
      then Inr (take (unat hi - unat lo) (drop (unat lo) data))
      else Inl Panic)"

definition le_uint :: "byte list \<Rightarrow> 64 word" where
  "le_uint bs = foldr (\<lambda>b acc. ucast b OR push_bit 8 acc) bs 0"

definition be_uint :: "byte list \<Rightarrow> 64 word" where
  "be_uint bs = foldl (\<lambda>acc b. push_bit 8 acc OR ucast b) 0 bs"

text \<open>
  The pointer value in \<open>ptrData\<close>: \<^verbatim>\<open>Uint64\<close> for a pointer size of 8, \<^verbatim>\<open>Uint32\<close> widened
  for 4, and the zero value of \<^verbatim>\<open>ptr\<close> for any other size.
\<close>

definition decode_pointer :: "bool \<Rightarrow> 64 word \<Rightarrow> byte list \<Rightarrow> 64 word" where
  "decode_pointer big ps ptrData =
     (if ps = 8 \<or> ps = 4 then (if big then be_uint ptrData else le_uint ptrData) else 0)"

text \<open>How much of the stream a read leaves.\<close>

lemma ReadUvarint_from_length:
  "length (snd (ReadUvarint_from i x bs)) \<le> length bs"
proof (induction i x bs rule: ReadUvarint_from.induct)
  case (1 i x bs)
  show ?case
  proof (cases bs)
    case Nil
    then show ?thesis by (subst ReadUvarint_from.simps) simp
  next
    case (Cons b rest)
    show ?thesis
    proof (cases "i \<ge> 10 \<or> b < 0x80")
      case True
      then show ?thesis using Cons by (subst ReadUvarint_from.simps) auto
    next
      case False
      with 1 [of b rest] Cons
      have "length (snd (ReadUvarint_from (Suc i) (x OR push_bit (7 * i) (ucast (b AND 0x7f))) rest))
              \<le> length rest" by simp
      then show ?thesis using False Cons by (subst ReadUvarint_from.simps) simp
    qed
  qed
qed

lemma ReadUvarint_Nil: "ReadUvarint [] = (Inl EOF, [])"
  by (simp add: ReadUvarint_def ReadUvarint_from.simps)

lemma ReadUvarint_Cons_length: "length (snd (ReadUvarint (b # rest))) \<le> length rest"
proof (cases "b < 0x80")
  case True
  then show ?thesis by (simp add: ReadUvarint_def ReadUvarint_from.simps [of 0])
next
  case False
  then show ?thesis
    using ReadUvarint_from_length [of "Suc 0" "0 OR push_bit (7 * 0) (ucast (b AND 0x7f))" rest]
    by (simp add: ReadUvarint_def ReadUvarint_from.simps [of 0])
qed

lemma ReadUvarint_length: "length (snd (ReadUvarint bs)) \<le> length bs"
  unfolding ReadUvarint_def by (rule ReadUvarint_from_length)

lemma ReadUvarint_value_length:
  assumes "ReadUvarint bs = (Inr v, bs')"
  shows "length bs' < length bs"
proof (cases bs)
  case Nil
  with assms show ?thesis by (simp add: ReadUvarint_Nil)
next
  case (Cons b rest)
  with assms ReadUvarint_Cons_length [of b rest] show ?thesis by simp
qed

lemma ReadUvarint_error_length:
  assumes "ReadUvarint bs = (Inl e, bs')" "e \<noteq> EOF"
  shows "length bs' < length bs"
proof (cases bs)
  case Nil
  with assms show ?thesis by (simp add: ReadUvarint_Nil)
next
  case (Cons b rest)
  with assms ReadUvarint_Cons_length [of b rest] show ?thesis by simp
qed

lemma ReadFull_length: "length (snd (ReadFull n bs)) \<le> length bs"
  by (simp add: ReadFull_def)

text \<open>A read never gives back more than it was given.\<close>

definition consuming :: "(byte list \<Rightarrow> 'a reading) \<Rightarrow> bool" where
  "consuming m \<longleftrightarrow> (\<forall>bs. length (snd (m bs)) \<le> length bs)"

lemma consumingD: "consuming m \<Longrightarrow> m bs = (r, bs') \<Longrightarrow> length bs' \<le> length bs"
  by (metis consuming_def snd_conv)

lemma consuming_ok: "consuming (ok x)"
  by (simp add: consuming_def ok_def)

lemma consuming_failed: "consuming (failed e)"
  by (simp add: consuming_def failed_def)

lemma consuming_ReadUvarint: "consuming ReadUvarint"
  by (simp add: consuming_def ReadUvarint_length)

lemma consuming_ReadFull: "consuming (ReadFull n)"
  by (simp add: consuming_def ReadFull_length)

lemma consuming_then_read:
  assumes "consuming m" "\<And>x. consuming (f x)"
  shows "consuming (then_read m f)"
  unfolding consuming_def
proof
  fix bs
  obtain r bs1 where m: "m bs = (r, bs1)" by (cases "m bs") auto
  from assms(1) m have l1: "length bs1 \<le> length bs" by (rule consumingD)
  show "length (snd (then_read m f bs)) \<le> length bs"
  proof (cases r)
    case (Inl e)
    with m l1 show ?thesis by (simp add: then_read_def)
  next
    case (Inr x)
    from assms(2) [of x] have "length (snd (f x bs1)) \<le> length bs1" by (simp add: consuming_def)
    with m l1 Inr show ?thesis by (simp add: then_read_def)
  qed
qed

section \<open>The graph-building parser (heapdump/goheap/parser.go)\<close>

record typeInfo =
  address :: "64 word"
  tsize :: "64 word"
  name :: string
  indirect :: bool

text \<open>
  The state of \<^verbatim>\<open>parser\<close>: the graph under construction (\<^verbatim>\<open>g\<close>), the type table, the map
  from addresses to object ids, the collected roots (\<^verbatim>\<open>roots\<close>), the next id, and the
  dump parameters. The \<^verbatim>\<open>stats\<close> counters are only written, never read, and are left
  out.
\<close>

record parser =
  pgraph :: MemGraph
  types :: "64 word \<rightharpoonup> typeInfo"
  addrToObjID :: "64 word \<rightharpoonup> ObjID"
  root_ids :: "ObjID list"
  nextObjID :: ObjID
  bigEndian :: bool
  pointerSize :: "64 word"
  heapStart :: "64 word"
  heapEnd :: "64 word"
  arch :: string
  goVersion :: string
  numCPUs :: "64 word"

definition header_magic :: "byte list" where
  "header_magic = bytes_of ''go1.7 heap dump'' @ [0x0a]"

definition tagEOF :: "64 word" where "tagEOF = 0"
definition tagObject :: "64 word" where "tagObject = 1"
definition tagOtherRoot :: "64 word" where "tagOtherRoot = 2"
definition tagType :: "64 word" where "tagType = 3"
definition tagGoroutine :: "64 word" where "tagGoroutine = 4"
definition tagStackFrame :: "64 word" where "tagStackFrame = 5"
definition tagParams :: "64 word" where "tagParams = 6"
definition tagFinalizer :: "64 word" where "tagFinalizer = 7"
definition tagItab :: "64 word" where "tagItab = 8"
definition tagOSThread :: "64 word" where "tagOSThread = 9"
definition tagMemStats :: "64 word" where "tagMemStats = 10"
definition tagQueuedFinalizer :: "64 word" where "tagQueuedFinalizer = 11"
definition tagData :: "64 word" where "tagData = 12"
definition tagBSS :: "64 word" where "tagBSS = 13"
definition tagDefer :: "64 word" where "tagDefer = 14"
definition tagPanic :: "64 word" where "tagPanic = 15"
definition tagMemProf :: "64 word" where "tagMemProf = 16"
definition tagAllocSample :: "64 word" where "tagAllocSample = 17"

definition fieldKindEol :: "64 word" where "fieldKindEol = 0"
definition fieldKindPtr :: "64 word" where "fieldKindPtr = 1"

lemmas tag_defs = tagEOF_def tagObject_def tagOtherRoot_def tagType_def tagGoroutine_def
  tagStackFrame_def tagParams_def tagFinalizer_def tagItab_def tagOSThread_def tagMemStats_def
  tagQueuedFinalizer_def tagData_def tagBSS_def tagDefer_def tagPanic_def tagMemProf_def
  tagAllocSample_def fieldKindEol_def fieldKindPtr_def

definition readVarint :: "byte list \<Rightarrow> 64 word reading" where
  "readVarint = ReadUvarint"

definition readString :: "byte list \<Rightarrow> string reading" where
  "readString =
     then_read readVarint (\<lambda>len.
       if len > 2 ^ 20 then failed (StringTooLong len)
       else then_read (ReadFull (unat len)) (\<lambda>data. ok (string_of data)))"

definition readBytes :: "byte list \<Rightarrow> byte list reading" where
  "readBytes =
     then_read readVarint (\<lambda>len.
       if len > 2 ^ 30 then failed (ByteSliceTooLong len)
       else then_read (ReadFull (unat len)) (\<lambda>data. ok data))"

text \<open>\<^verbatim>\<open>for i := 0; i < n; i++ { if _, err := p.readVarint(); err != nil { return err } }\<close>\<close>

fun skip_varints :: "nat \<Rightarrow> byte list \<Rightarrow> unit reading" where
  "skip_varints 0 bs = (Inr (), bs)"
| "skip_varints (Suc n) bs =
     (case readVarint bs of
        (Inl e, bs') \<Rightarrow> (Inl e, bs')
      | (Inr v, bs') \<Rightarrow> skip_varints n bs')"

lemma consuming_readVarint: "consuming readVarint"
  by (simp add: readVarint_def consuming_ReadUvarint)

lemma readVarint_value_length: "readVarint bs = (Inr v, bs') \<Longrightarrow> length bs' < length bs"
  unfolding readVarint_def by (rule ReadUvarint_value_length)

lemma readVarint_value_length_sym: "(Inr v, bs') = readVarint bs \<Longrightarrow> length bs' < length bs"
  using readVarint_value_length [of bs v bs'] by simp

lemma consuming_readString: "consuming readString"
  unfolding readString_def
  by (intro consuming_then_read consuming_readVarint)
    (simp add: consuming_failed consuming_then_read consuming_ReadFull consuming_ok)

lemma consuming_readBytes: "consuming readBytes"
  unfolding readBytes_def
  by (intro consuming_then_read consuming_readVarint)
    (simp add: consuming_failed consuming_then_read consuming_ReadFull consuming_ok)

lemma consuming_skip_varints: "consuming (skip_varints n)"
proof -
  have "length (snd (skip_varints n bs)) \<le> length bs" for bs
  proof (induction n arbitrary: bs)
    case 0
    then show ?case by simp
  next
    case (Suc n)
    obtain r bs' where r: "readVarint bs = (r, bs')" by (cases "readVarint bs") auto
    with consuming_readVarint have "length bs' \<le> length bs" by (rule consumingD)
    with Suc [of bs'] r show ?case by (cases r) auto
  qed
  then show ?thesis by (simp add: consuming_def)
qed

text \<open>
  The field list of a stack frame or of a data segment, which is skipped: pairs of kind
  and offset up to the kind 0.
\<close>

function skip_fields :: "byte list \<Rightarrow> unit reading" where
  "skip_fields bs =
     (case readVarint bs of
        (Inl e, bs1) \<Rightarrow> (Inl e, bs1)
      | (Inr kind, bs1) \<Rightarrow>
          if kind = fieldKindEol then (Inr (), bs1)
          else
            (case readVarint bs1 of
               (Inl e, bs2) \<Rightarrow> (Inl e, bs2)
             | (Inr offset, bs2) \<Rightarrow> skip_fields bs2))"
  by pat_completeness auto
termination
  by (relation "measure length") (auto dest!: readVarint_value_length_sym)

declare skip_fields.simps [simp del]

lemma consuming_skip_fields: "consuming skip_fields"
proof -
  have "length (snd (skip_fields bs)) \<le> length bs" for bs
  proof (induction bs rule: skip_fields.induct)
    case (1 bs)
    obtain r1 bs1 where r1: "readVarint bs = (r1, bs1)" by (cases "readVarint bs") auto
    from consuming_readVarint r1 have l1: "length bs1 \<le> length bs" by (rule consumingD)
    show ?case
    proof (cases r1)
      case (Inl e)
      with r1 l1 show ?thesis by (subst skip_fields.simps) simp
    next
      case (Inr kind)
      note kind = this
      obtain r2 bs2 where r2: "readVarint bs1 = (r2, bs2)" by (cases "readVarint bs1") auto
      from consuming_readVarint r2 have l2: "length bs2 \<le> length bs1" by (rule consumingD)
      show ?thesis
      proof (cases "kind = fieldKindEol")
        case True
        with r1 l1 kind show ?thesis by (subst skip_fields.simps) simp
      next
        case False
        show ?thesis
        proof (cases r2)
          case (Inl e)
          with r1 r2 l1 l2 kind False show ?thesis by (subst skip_fields.simps) simp
        next
          case (Inr offset)
          from "1.IH" [OF r1 [symmetric, unfolded kind] _ False r2 [symmetric, unfolded Inr]]
          have "length (snd (skip_fields bs2)) \<le> length bs2" by simp
          with r1 r2 l1 l2 kind False Inr show ?thesis by (subst skip_fields.simps) simp
        qed
      qed
    qed
  qed
  then show ?thesis by (simp add: consuming_def)
qed

definition parseParams :: "parser \<Rightarrow> byte list \<Rightarrow> parser reading" where
  "parseParams p =
     then_read readVarint (\<lambda>big.
     then_read readVarint (\<lambda>ps.
     then_read readVarint (\<lambda>hs.
     then_read readVarint (\<lambda>he.
     then_read readString (\<lambda>a.
     then_read readString (\<lambda>gv.
     then_read readVarint (\<lambda>n.
       ok (p\<lparr>bigEndian := big \<noteq> 0, pointerSize := ps, heapStart := hs, heapEnd := he,
              arch := a, goVersion := gv, numCPUs := n\<rparr>))))))))"

definition parseType :: "parser \<Rightarrow> byte list \<Rightarrow> parser reading" where
  "parseType p =
     then_read readVarint (\<lambda>addr.
     then_read readVarint (\<lambda>sz.
     then_read readString (\<lambda>nm.
     then_read readVarint (\<lambda>ind.
       ok (p\<lparr>types := (types p)(addr \<mapsto>
              \<lparr>address = addr, tsize = sz, name = nm, indirect = ind \<noteq> 0\<rparr>)\<rparr>)))))"

text \<open>
  The field list of an object, for the byte order \<open>big\<close> and the pointer size \<open>ps\<close> of
  the dump parameters. A pointer field whose end, \<^verbatim>\<open>int(offset+p.pointerSize)\<close>, is within
  the data has its value read; a value other than 0 is appended to the local slice
  \<^verbatim>\<open>pointers\<close>. Both parsers have this loop.
\<close>

function object_fields ::
  "bool \<Rightarrow> 64 word \<Rightarrow> byte list \<Rightarrow> 64 word list \<Rightarrow> byte list \<Rightarrow> 64 word list reading" where
  "object_fields big ps data pointers bs =
     (case readVarint bs of
        (Inl e, bs1) \<Rightarrow> (Inl e, bs1)
      | (Inr kind, bs1) \<Rightarrow>
          if kind = fieldKindEol then (Inr pointers, bs1)
          else
            (case readVarint bs1 of
               (Inl e, bs2) \<Rightarrow> (Inl e, bs2)
             | (Inr offset, bs2) \<Rightarrow>
                 if kind = fieldKindPtr \<and> sint (offset + ps) \<le> int (length data) then
                   (case slice data offset (offset + ps) of
                      Inl e \<Rightarrow> (Inl e, bs2)
                    | Inr ptrData \<Rightarrow>
                        object_fields big ps data
                          (if decode_pointer big ps ptrData \<noteq> 0
                           then pointers @ [decode_pointer big ps ptrData]
                           else pointers) bs2)
                 else object_fields big ps data pointers bs2))"
  by pat_completeness auto
termination
  by (relation "measure (\<lambda>(big, ps, data, pointers, bs). length bs)")
    (auto dest!: readVarint_value_length_sym)

declare object_fields.simps [simp del]

lemma consuming_object_fields: "consuming (object_fields big ps data pointers)"
proof -
  have "length (snd (object_fields big ps data pointers bs)) \<le> length bs" for bs
  proof (induction big ps data pointers bs rule: object_fields.induct)
    case (1 big ps data pointers bs)
    obtain r1 bs1 where r1: "readVarint bs = (r1, bs1)" by (cases "readVarint bs") auto
    from consuming_readVarint r1 have l1: "length bs1 \<le> length bs" by (rule consumingD)
    show ?case
    proof (cases r1)
      case (Inl e)
      with r1 l1 show ?thesis by (subst object_fields.simps) simp
    next
      case (Inr kind)
      note kind = this
      obtain r2 bs2 where r2: "readVarint bs1 = (r2, bs2)" by (cases "readVarint bs1") auto
      from consuming_readVarint r2 have l2: "length bs2 \<le> length bs1" by (rule consumingD)
      show ?thesis
      proof (cases "kind = fieldKindEol")
        case True
        with r1 l1 kind show ?thesis by (subst object_fields.simps) simp
      next
        case False
        note more = this
        show ?thesis
        proof (cases r2)
          case (Inl e)
          with r1 r2 l1 l2 kind more show ?thesis by (subst object_fields.simps) simp
        next
          case (Inr offset)
          note offset = this
          show ?thesis
          proof (cases "kind = fieldKindPtr \<and> sint (offset + ps) \<le> int (length data)")
            case False
            from "1.IH"(2) [OF r1 [symmetric, unfolded kind] _ more r2 [symmetric, unfolded offset] _ False]
            have "length (snd (object_fields big ps data pointers bs2)) \<le> length bs2" by simp
            with r1 r2 l1 l2 kind more offset False show ?thesis
              by (subst object_fields.simps) auto
          next
            case True
            show ?thesis
            proof (cases "slice data offset (offset + ps)")
              case (Inl e)
              with r1 r2 l1 l2 kind more offset True show ?thesis
                by (subst object_fields.simps) simp
            next
              case (Inr ptrData)
              from "1.IH"(1) [OF r1 [symmetric, unfolded kind] _ more r2 [symmetric, unfolded offset] _ True Inr]
              have "length (snd (object_fields big ps data
                  (if decode_pointer big ps ptrData \<noteq> 0
                   then pointers @ [decode_pointer big ps ptrData]
                   else pointers) bs2)) \<le> length bs2" by simp
              with r1 r2 l1 l2 kind more offset True Inr show ?thesis
                by (subst object_fields.simps) simp
            qed
          qed
        qed
      qed
    qed
  qed
  then show ?thesis by (simp add: consuming_def)
qed

text \<open>
  The type name of an object: the type whose address stands in the first
  \<^verbatim>\<open>pointerSize\<close> bytes of the data, when the data is that long and the type is known.
\<close>

definition type_name_of :: "parser \<Rightarrow> byte list \<Rightarrow> dump_error + string" where
  "type_name_of p data =
     (if int (length data) \<ge> sint (pointerSize p) then
        (case slice data 0 (pointerSize p) of
           Inl e \<Rightarrow> Inl e
         | Inr typeAddrData \<Rightarrow>
             (case types p (decode_pointer (bigEndian p) (pointerSize p) typeAddrData) of
                Some t \<Rightarrow> Inr (name t)
              | None \<Rightarrow> Inr ''unknown''))
      else Inr ''unknown'')"

text \<open>
  \<^verbatim>\<open>parseObject\<close>. The object is created with
  \<^verbatim>\<open>Ptrs: make([]graph.ObjID, 0, len(pointers))\<close>, an empty slice that is not nil, and is
  added to the graph; the slice \<^verbatim>\<open>pointers\<close> is not used after that.
\<close>

definition parseObject :: "parser \<Rightarrow> byte list \<Rightarrow> parser reading" where
  "parseObject p =
     then_read readVarint (\<lambda>addr.
     then_read readBytes (\<lambda>data.
     then_read (object_fields (bigEndian p) (pointerSize p) data []) (\<lambda>pointers.
       let objID = nextObjID p;
           p1 = p\<lparr>nextObjID := objID + 1, addrToObjID := (addrToObjID p)(addr \<mapsto> objID)\<rparr>
       in case type_name_of p1 data of
            Inl e \<Rightarrow> failed e
          | Inr typeName \<Rightarrow>
              ok (p1\<lparr>pgraph := AddObject (pgraph p1)
                    \<lparr>ID = objID, Type = typeName, Size = of_nat (length data), Ptrs = Some []\<rparr>\<rparr>))))"

text \<open>\<^verbatim>\<open>parseOtherRoot\<close> resolves the root at once, against the objects seen so far.\<close>

definition parseOtherRoot :: "parser \<Rightarrow> byte list \<Rightarrow> parser reading" where
  "parseOtherRoot p =
     then_read readString (\<lambda>desc.
     then_read readVarint (\<lambda>ptr.
       ok (case addrToObjID p ptr of
             Some objID \<Rightarrow> p\<lparr>root_ids := root_ids p @ [objID]\<rparr>
           | None \<Rightarrow> p)))"

definition parseGoroutine :: "byte list \<Rightarrow> unit reading" where
  "parseGoroutine = then_read (skip_varints 12) (\<lambda>u. then_read readString (\<lambda>reason. ok ()))"

definition parseStackFrame :: "byte list \<Rightarrow> unit reading" where
  "parseStackFrame =
     then_read (skip_varints 3) (\<lambda>u.
     then_read readBytes (\<lambda>data.
     then_read (skip_varints 3) (\<lambda>u.
     then_read readString (\<lambda>nm. skip_fields))))"

text \<open>\<^verbatim>\<open>parseMemStats\<close>: the loop \<^verbatim>\<open>for i := 0; i < 8; i++\<close> over \<^verbatim>\<open>readVarint\<close>.\<close>

definition parseMemStats :: "byte list \<Rightarrow> unit reading" where
  "parseMemStats = skip_varints 8"

definition skipItab :: "byte list \<Rightarrow> unit reading" where
  "skipItab = then_read readVarint (\<lambda>a. then_read readVarint (\<lambda>t. ok ()))"

definition skipFinalizer :: "byte list \<Rightarrow> unit reading" where
  "skipFinalizer = skip_varints 5"

definition skipDataSegment :: "byte list \<Rightarrow> unit reading" where
  "skipDataSegment = then_read readVarint (\<lambda>a. then_read readBytes (\<lambda>data. skip_fields))"

definition skipDeferPanic :: "byte list \<Rightarrow> unit reading" where
  "skipDeferPanic = skip_varints 5"

definition skipOSThread :: "byte list \<Rightarrow> unit reading" where
  "skipOSThread = skip_varints 3"

fun skip_frames :: "nat \<Rightarrow> byte list \<Rightarrow> unit reading" where
  "skip_frames 0 bs = (Inr (), bs)"
| "skip_frames (Suc n) bs =
     then_read readString (\<lambda>fn.
     then_read readString (\<lambda>file.
     then_read readVarint (\<lambda>line. skip_frames n))) bs"

definition skipMemProf :: "byte list \<Rightarrow> unit reading" where
  "skipMemProf =
     then_read readVarint (\<lambda>bucket.
     then_read readVarint (\<lambda>sz.
     then_read readVarint (\<lambda>nstk.
     then_read (skip_frames (unat nstk)) (\<lambda>u.
     then_read readVarint (\<lambda>allocs.
     then_read readVarint (\<lambda>frees. ok ()))))))"

text \<open>
  \<^verbatim>\<open>fmt.Errorf("...: %w", err)\<close> around the error of a record parser. A panic is not
  an error value: it passes every \<^verbatim>\<open>if err != nil\<close> unchanged.
\<close>

definition wrap_error :: "string \<Rightarrow> dump_error \<Rightarrow> dump_error" where
  "wrap_error msg e = (if e = Panic then Panic else Wrapped msg e)"

definition wrap :: "string \<Rightarrow> (byte list \<Rightarrow> 'a reading) \<Rightarrow> byte list \<Rightarrow> 'a reading" where
  "wrap msg m bs = (case m bs of (Inl e, bs') \<Rightarrow> (Inl (wrap_error msg e), bs') | (Inr x, bs') \<Rightarrow> (Inr x, bs'))"

definition keep :: "'s \<Rightarrow> (byte list \<Rightarrow> unit reading) \<Rightarrow> byte list \<Rightarrow> 's reading" where
  "keep p m = then_read m (\<lambda>u. ok p)"

text \<open>The \<^verbatim>\<open>switch tag\<close> of \<^verbatim>\<open>parse\<close>, for the tags other than \<open>tagEOF\<close>.\<close>

definition parse_record :: "64 word \<Rightarrow> parser \<Rightarrow> byte list \<Rightarrow> parser reading" where
  "parse_record tag p =
     (if tag = tagParams then wrap ''parsing params'' (parseParams p)
      else if tag = tagType then wrap ''parsing type'' (parseType p)
      else if tag = tagObject then wrap ''parsing object'' (parseObject p)
      else if tag = tagOtherRoot then wrap ''parsing root'' (parseOtherRoot p)
      else if tag = tagGoroutine then wrap ''parsing goroutine'' (keep p parseGoroutine)
      else if tag = tagStackFrame then wrap ''parsing stack frame'' (keep p parseStackFrame)
      else if tag = tagMemStats then wrap ''parsing memstats'' (keep p parseMemStats)
      else if tag = tagItab then wrap ''skipping itab'' (keep p skipItab)
      else if tag = tagFinalizer \<or> tag = tagQueuedFinalizer then wrap ''skipping finalizer'' (keep p skipFinalizer)
      else if tag = tagData \<or> tag = tagBSS then wrap ''skipping data segment'' (keep p skipDataSegment)
      else if tag = tagDefer \<or> tag = tagPanic then wrap ''skipping defer/panic'' (keep p skipDeferPanic)
      else if tag = tagOSThread then wrap ''skipping OS thread'' (keep p skipOSThread)
      else if tag = tagMemProf \<or> tag = tagAllocSample then wrap ''skipping mem prof'' (keep p skipMemProf)
      else failed (UnknownTag tag))"

lemma consuming_wrap: "consuming m \<Longrightarrow> consuming (wrap msg m)"
  unfolding consuming_def wrap_def
proof
  fix bs assume m: "\<forall>bs. length (snd (m bs)) \<le> length bs"
  obtain r bs' where r: "m bs = (r, bs')" by (cases "m bs") auto
  with m [rule_format, of bs] show
    "length (snd (case m bs of (Inl e, bs') \<Rightarrow> (Inl (wrap_error msg e), bs') | (Inr x, bs') \<Rightarrow> (Inr x, bs')))
      \<le> length bs"
    by (cases r) auto
qed

lemma consuming_keep: "consuming m \<Longrightarrow> consuming (keep p m)"
  unfolding keep_def by (intro consuming_then_read consuming_ok)

lemma consuming_skip_frames: "consuming (skip_frames n)"
proof (induction n)
  case 0
  show ?case by (simp add: consuming_def)
next
  case (Suc n)
  have "consuming (then_read readString (\<lambda>fn.
     then_read readString (\<lambda>file. then_read readVarint (\<lambda>line. skip_frames n))))"
    by (intro consuming_then_read consuming_readString consuming_readVarint Suc)
  then show ?case by (simp add: consuming_def)
qed

lemma consuming_parseObject: "consuming (parseObject p)"
proof -
  have "consuming (case r of Inl e \<Rightarrow> failed e | Inr x \<Rightarrow> ok (f x))"
    for r :: "dump_error + string" and f :: "string \<Rightarrow> parser"
    by (cases r) (simp_all add: consuming_failed consuming_ok)
  then show ?thesis
    unfolding parseObject_def Let_def
    by (intro consuming_then_read consuming_readVarint consuming_readBytes consuming_object_fields)
qed

lemmas consuming_intros = consuming_then_read consuming_readVarint consuming_readString
  consuming_readBytes consuming_skip_varints consuming_skip_fields consuming_skip_frames
  consuming_ok consuming_failed

lemma consuming_parseParams: "consuming (parseParams p)"
  unfolding parseParams_def by (intro consuming_intros)

lemma consuming_parseType: "consuming (parseType p)"
  unfolding parseType_def by (intro consuming_intros)

lemma consuming_parseOtherRoot: "consuming (parseOtherRoot p)"
  unfolding parseOtherRoot_def by (intro consuming_intros)

lemma consuming_parseGoroutine: "consuming parseGoroutine"
  unfolding parseGoroutine_def by (intro consuming_intros)

lemma consuming_parseStackFrame: "consuming parseStackFrame"
  unfolding parseStackFrame_def by (intro consuming_intros)

lemma consuming_parseMemStats: "consuming parseMemStats"
  unfolding parseMemStats_def by (rule consuming_skip_varints)

lemma consuming_skipItab: "consuming skipItab"
  unfolding skipItab_def by (intro consuming_intros)

lemma consuming_skipFinalizer: "consuming skipFinalizer"
  unfolding skipFinalizer_def by (rule consuming_skip_varints)

lemma consuming_skipDataSegment: "consuming skipDataSegment"
  unfolding skipDataSegment_def by (intro consuming_intros)

lemma consuming_skipDeferPanic: "consuming skipDeferPanic"
  unfolding skipDeferPanic_def by (rule consuming_skip_varints)

lemma consuming_skipOSThread: "consuming skipOSThread"
  unfolding skipOSThread_def by (rule consuming_skip_varints)

lemma consuming_skipMemProf: "consuming skipMemProf"
  unfolding skipMemProf_def by (intro consuming_intros)

lemma consuming_parse_record: "consuming (parse_record tag p)"
  unfolding parse_record_def
  by (simp add: consuming_wrap consuming_keep consuming_parseParams consuming_parseType
      consuming_parseObject consuming_parseOtherRoot consuming_parseGoroutine
      consuming_parseStackFrame consuming_parseMemStats consuming_skipItab consuming_skipFinalizer
      consuming_skipDataSegment consuming_skipDeferPanic consuming_skipOSThread
      consuming_skipMemProf consuming_failed)

lemma parse_record_length_sym:
  "(Inr p', bs2) = parse_record tag p bs1 \<Longrightarrow> length bs2 \<le> length bs1"
  using consumingD [OF consuming_parse_record, of tag p bs1 "Inr p'" bs2] by simp

text \<open>\<^verbatim>\<open>finalize\<close> sets the roots of the graph.\<close>

definition finalize :: "parser \<Rightarrow> parser" where
  "finalize p = p\<lparr>pgraph := SetRoots (pgraph p) (root_ids p)\<rparr>"

text \<open>
  The record loop of \<^verbatim>\<open>parse\<close>: the end of the stream where a tag is expected ends the
  loop, as the tag 0 does.
\<close>

function parse_records :: "parser \<Rightarrow> byte list \<Rightarrow> dump_error + parser" where
  "parse_records p bs =
     (case readVarint bs of
        (Inl err, bs1) \<Rightarrow> if err = EOF then Inr (finalize p) else Inl (wrap_error ''reading tag'' err)
      | (Inr tag, bs1) \<Rightarrow>
          if tag = tagEOF then Inr (finalize p)
          else
            (case parse_record tag p bs1 of
               (Inl e, bs2) \<Rightarrow> Inl e
             | (Inr p', bs2) \<Rightarrow> parse_records p' bs2))"
  by pat_completeness auto
termination
  by (relation "measure (\<lambda>(p, bs). length bs)")
    (auto dest!: readVarint_value_length_sym parse_record_length_sym)

declare parse_records.simps [simp del]

definition parse :: "parser \<Rightarrow> byte list \<Rightarrow> dump_error + parser" where
  "parse p bs =
     (case ReadFull 16 bs of
        (Inl e, bs1) \<Rightarrow> Inl (wrap_error ''reading header'' e)
      | (Inr header, bs1) \<Rightarrow>
          if header \<noteq> header_magic then Inl (InvalidHeader header)
          else parse_records p bs1)"

definition new_parser :: parser where
  "new_parser = \<lparr>pgraph = NewMemGraph, types = Map.empty, addrToObjID = Map.empty, root_ids = [],
     nextObjID = 0, bigEndian = False, pointerSize = 0, heapStart = 0, heapEnd = 0,
     arch = [], goVersion = [], numCPUs = 0\<rparr>"

text \<open>\<^verbatim>\<open>GoHeapParser.CanParse\<close> and \<^verbatim>\<open>GoHeapParser.Parse\<close>.\<close>

definition GoHeap_CanParse :: "byte list \<Rightarrow> bool" where
  "GoHeap_CanParse preview \<longleftrightarrow> length preview \<ge> 16 \<and> take 16 preview = header_magic"

definition GoHeap_Parse :: "byte list \<Rightarrow> dump_error + MemGraph" where
  "GoHeap_Parse bs =
     (case parse new_parser bs of
        Inl err \<Rightarrow> Inl (wrap_error ''parsing heap dump'' err)
      | Inr p \<Rightarrow> Inr (pgraph p))"

subsection \<open>The full MemStats record (heapdump/goheap/records.go)\<close>

text \<open>
  \<^verbatim>\<open>parseMemStatsFull\<close> reads twelve fields into the result and then skips 49 more.
\<close>

fun read_varints :: "nat \<Rightarrow> byte list \<Rightarrow> 64 word list reading" where
  "read_varints 0 bs = (Inr [], bs)"
| "read_varints (Suc n) bs =
     (case readVarint bs of
        (Inl e, bs') \<Rightarrow> (Inl e, bs')
      | (Inr v, bs') \<Rightarrow>
          (case read_varints n bs' of
             (Inl e, bs'') \<Rightarrow> (Inl e, bs'')
           | (Inr vs, bs'') \<Rightarrow> (Inr (v # vs), bs'')))"

definition parseMemStatsFull :: "byte list \<Rightarrow> 64 word list reading" where
  "parseMemStatsFull = then_read (read_varints 12) (\<lambda>ms. then_read (skip_varints 49) (\<lambda>u. ok ms))"

section \<open>The streaming parser (heapdump/goheap/streaming.go)\<close>

record DumpParams =
  BigEndian :: bool
  PointerSize :: "64 word"
  HeapStart :: "64 word"
  HeapEnd :: "64 word"
  Arch :: string
  GoVersion :: string
  NumCPUs :: "64 word"

text \<open>
  The callbacks are closures of the caller and may keep state of their own: each takes
  the caller's state \<open>'u\<close> and returns it with its result, \<open>None\<close> for \<^verbatim>\<open>nil\<close>. A callback
  that is not set is \<open>None\<close>. \<^verbatim>\<open>OnProgress\<close>, the progress counters and the ticker
  goroutine depend on time and are left out.
\<close>

record 'u StreamCallbacks =
  OnParams :: "(DumpParams \<Rightarrow> 'u \<Rightarrow> dump_error option \<times> 'u) option"
  OnType :: "(64 word \<Rightarrow> 64 word \<Rightarrow> string \<Rightarrow> bool \<Rightarrow> 'u \<Rightarrow> dump_error option \<times> 'u) option"
  OnObject :: "(64 word \<Rightarrow> 64 word \<Rightarrow> byte list \<Rightarrow> 64 word list \<Rightarrow> 'u \<Rightarrow> dump_error option \<times> 'u) option"
  OnRoot :: "(string \<Rightarrow> 64 word \<Rightarrow> 'u \<Rightarrow> dump_error option \<times> 'u) option"
  OnGoroutine :: "(64 word \<Rightarrow> 64 word \<Rightarrow> string \<Rightarrow> 'u \<Rightarrow> dump_error option \<times> 'u) option"
  OnError :: "(dump_error \<Rightarrow> bool \<Rightarrow> 'u \<Rightarrow> dump_error option \<times> 'u) option"

record 'u StreamingParser =
  callbacks :: "'u StreamCallbacks"
  user :: 'u
  maxErrors :: int
  errorCount :: int
  skipOnError :: bool
  params :: DumpParams

definition NewStreamingParser :: "'u StreamCallbacks \<Rightarrow> 'u \<Rightarrow> 'u StreamingParser" where
  "NewStreamingParser cbs u =
     \<lparr>callbacks = cbs, user = u, maxErrors = 100, errorCount = 0, skipOnError = True,
      params = \<lparr>BigEndian = False, PointerSize = 0, HeapStart = 0, HeapEnd = 0,
                Arch = [], GoVersion = [], NumCPUs = 0\<rparr>\<rparr>"

definition SetErrorRecovery :: "'u StreamingParser \<Rightarrow> int \<Rightarrow> bool \<Rightarrow> 'u StreamingParser" where
  "SetErrorRecovery p m s = p\<lparr>maxErrors := m, skipOnError := s\<rparr>"

text \<open>The three readers of \<^verbatim>\<open>StreamingParser\<close>; they also count bytes for the progress report.\<close>

definition stream_readVarint :: "byte list \<Rightarrow> 64 word reading" where
  "stream_readVarint = ReadUvarint"

definition stream_readVarint_returned :: "byte list \<Rightarrow> 64 word" where
  "stream_readVarint_returned = Uvarint_returned"

definition stream_readString :: "byte list \<Rightarrow> string reading" where
  "stream_readString =
     then_read stream_readVarint (\<lambda>len.
       if len > 2 ^ 20 then failed (StringTooLong len)
       else then_read (ReadFull (unat len)) (\<lambda>data. ok (string_of data)))"

definition stream_readBytes :: "byte list \<Rightarrow> byte list reading" where
  "stream_readBytes =
     then_read stream_readVarint (\<lambda>len.
       if len > 2 ^ 30 then failed (ByteSliceTooLong len)
       else then_read (ReadFull (unat len)) (\<lambda>data. ok data))"

fun stream_skip_varints :: "nat \<Rightarrow> byte list \<Rightarrow> unit reading" where
  "stream_skip_varints 0 bs = (Inr (), bs)"
| "stream_skip_varints (Suc n) bs =
     (case stream_readVarint bs of
        (Inl e, bs') \<Rightarrow> (Inl e, bs')
      | (Inr v, bs') \<Rightarrow> stream_skip_varints n bs')"

text \<open>
  A step of the parser: it reads from the stream and updates the parser; its result is
  the error, if any. \<open>store\<close> is a read into a local variable that is stored when the
  read succeeded. \<open>assign\<close> is \<^verbatim>\<open>p.params.X, err = p.read()\<close>, which assigns the first
  result of the read also when the second is an error.
\<close>

type_synonym 's step = "'s \<Rightarrow> byte list \<Rightarrow> dump_error option \<times> 's \<times> byte list"

definition store :: "(byte list \<Rightarrow> 'a reading) \<Rightarrow> ('a \<Rightarrow> 's \<Rightarrow> 's) \<Rightarrow> 's step" where
  "store m f st bs = (case m bs of (Inl e, bs') \<Rightarrow> (Some e, st, bs') | (Inr x, bs') \<Rightarrow> (None, f x st, bs'))"

definition assign ::
  "(byte list \<Rightarrow> 'a reading) \<Rightarrow> (byte list \<Rightarrow> 'a) \<Rightarrow> ('a \<Rightarrow> 's \<Rightarrow> 's) \<Rightarrow> 's step" where
  "assign m returned f st bs =
     (case m bs of
        (Inl e, bs') \<Rightarrow> (Some e, f (returned bs) st, bs')
      | (Inr x, bs') \<Rightarrow> (None, f x st, bs'))"

definition and_then :: "'s step \<Rightarrow> 's step \<Rightarrow> 's step" where
  "and_then a b st bs =
     (case a st bs of (Some e, st', bs') \<Rightarrow> (Some e, st', bs') | (None, st', bs') \<Rightarrow> b st' bs')"

definition read_then :: "(byte list \<Rightarrow> 'a reading) \<Rightarrow> ('a \<Rightarrow> 's \<Rightarrow> dump_error option \<times> 's) \<Rightarrow> 's step" where
  "read_then m k st bs =
     (case m bs of
        (Inl e, bs') \<Rightarrow> (Some e, st, bs')
      | (Inr x, bs') \<Rightarrow> (case k x st of (r, st') \<Rightarrow> (r, st', bs')))"

text \<open>Calling a callback, when it is set.\<close>

definition invoke ::
  "('u \<Rightarrow> dump_error option \<times> 'u) option \<Rightarrow> 'u StreamingParser \<Rightarrow> dump_error option \<times> 'u StreamingParser" where
  "invoke cb st =
     (case cb of
        None \<Rightarrow> (None, st)
      | Some f \<Rightarrow> (case f (user st) of (r, u') \<Rightarrow> (r, st\<lparr>user := u'\<rparr>)))"

definition set_params :: "(DumpParams \<Rightarrow> DumpParams) \<Rightarrow> 'u StreamingParser \<Rightarrow> 'u StreamingParser" where
  "set_params f st = st\<lparr>params := f (params st)\<rparr>"

text \<open>
  \<^verbatim>\<open>parseParams\<close>. \<^verbatim>\<open>BigEndian\<close> is set from a local variable; the other fields are
  assigned with the error, so a failed read leaves in them what the read returned: the
  varint read so far, and the empty string of \<^verbatim>\<open>readString\<close>.
\<close>

definition stream_parseParams :: "'u StreamingParser step" where
  "stream_parseParams =
     and_then (store stream_readVarint (\<lambda>v. set_params (\<lambda>ps. ps\<lparr>BigEndian := v \<noteq> 0\<rparr>)))
    (and_then (assign stream_readVarint stream_readVarint_returned
                 (\<lambda>v. set_params (\<lambda>ps. ps\<lparr>PointerSize := v\<rparr>)))
    (and_then (assign stream_readVarint stream_readVarint_returned
                 (\<lambda>v. set_params (\<lambda>ps. ps\<lparr>HeapStart := v\<rparr>)))
    (and_then (assign stream_readVarint stream_readVarint_returned
                 (\<lambda>v. set_params (\<lambda>ps. ps\<lparr>HeapEnd := v\<rparr>)))
    (and_then (assign (wrap ''reading arch'' stream_readString) (\<lambda>bs. [])
                 (\<lambda>v. set_params (\<lambda>ps. ps\<lparr>Arch := v\<rparr>)))
    (and_then (assign (wrap ''reading go version'' stream_readString) (\<lambda>bs. [])
                 (\<lambda>v. set_params (\<lambda>ps. ps\<lparr>GoVersion := v\<rparr>)))
    (and_then (assign stream_readVarint stream_readVarint_returned
                 (\<lambda>v. set_params (\<lambda>ps. ps\<lparr>NumCPUs := v\<rparr>)))
      (\<lambda>st bs. case invoke (map_option (\<lambda>f. f (params st)) (OnParams (callbacks st))) st of
                  (r, st') \<Rightarrow> (r, st', bs))))))))"

definition stream_parseType :: "'u StreamingParser step" where
  "stream_parseType =
     read_then
       (then_read stream_readVarint (\<lambda>addr.
        then_read stream_readVarint (\<lambda>sz.
        then_read stream_readString (\<lambda>nm.
        then_read stream_readVarint (\<lambda>ind. ok (addr, sz, nm, ind))))))
       (\<lambda>(addr, sz, nm, ind) st.
          invoke (map_option (\<lambda>f. f addr sz nm (ind \<noteq> 0)) (OnType (callbacks st))) st)"

text \<open>The type address in the first \<^verbatim>\<open>PointerSize\<close> bytes of the data, 0 when it is shorter.\<close>

definition type_addr_of :: "DumpParams \<Rightarrow> byte list \<Rightarrow> dump_error + 64 word" where
  "type_addr_of ps data =
     (if int (length data) \<ge> sint (PointerSize ps) then
        (case slice data 0 (PointerSize ps) of
           Inl e \<Rightarrow> Inl e
         | Inr typeAddrData \<Rightarrow> Inr (decode_pointer (BigEndian ps) (PointerSize ps) typeAddrData))
      else Inr 0)"

text \<open>What \<^verbatim>\<open>parseObject\<close> reads before it calls \<^verbatim>\<open>OnObject\<close>.\<close>

definition read_object ::
  "DumpParams \<Rightarrow> byte list \<Rightarrow> (64 word \<times> 64 word \<times> byte list \<times> 64 word list) reading" where
  "read_object ps =
     then_read stream_readVarint (\<lambda>addr.
     then_read stream_readBytes (\<lambda>data.
       case type_addr_of ps data of
         Inl e \<Rightarrow> failed e
       | Inr typeAddr \<Rightarrow>
           then_read (object_fields (BigEndian ps) (PointerSize ps) data [])
             (\<lambda>pointers. ok (addr, typeAddr, data, pointers))))"

definition stream_parseObject :: "'u StreamingParser step" where
  "stream_parseObject st =
     read_then (read_object (params st))
       (\<lambda>(addr, typeAddr, data, pointers) st.
          invoke (map_option (\<lambda>f. f addr typeAddr data pointers) (OnObject (callbacks st))) st)
       st"

definition stream_parseRoot :: "'u StreamingParser step" where
  "stream_parseRoot =
     read_then
       (then_read stream_readString (\<lambda>desc.
        then_read stream_readVarint (\<lambda>ptr. ok (desc, ptr))))
       (\<lambda>(desc, ptr) st. invoke (map_option (\<lambda>f. f desc ptr) (OnRoot (callbacks st))) st)"

definition stream_parseGoroutine :: "'u StreamingParser step" where
  "stream_parseGoroutine =
     read_then
       (then_read (stream_skip_varints 2) (\<lambda>u.
        then_read stream_readVarint (\<lambda>gid.
        then_read stream_readVarint (\<lambda>status.
        then_read (stream_skip_varints 3) (\<lambda>u.
        then_read stream_readString (\<lambda>waitReason.
        then_read (stream_skip_varints 4) (\<lambda>u. ok (gid, status, waitReason))))))))
       (\<lambda>(gid, status, waitReason) st.
          invoke (map_option (\<lambda>f. f gid status waitReason) (OnGoroutine (callbacks st))) st)"

definition skipUnknown :: "64 word \<Rightarrow> byte list \<Rightarrow> unit reading" where
  "skipUnknown tag = (if tag < 20 then stream_skip_varints 5 else failed (UnknownTag tag))"

text \<open>
  \<^verbatim>\<open>seekToNextRecord\<close> reads up to 1000 bytes and stops after a byte that is at most 17
  when \<^verbatim>\<open>Peek(10)\<close> shows that more bytes follow. It then calls \<^verbatim>\<open>UnreadByte\<close>, which
  after a \<^verbatim>\<open>Peek\<close> fails and unreads nothing (bufio: calling Peek prevents an UnreadByte
  call from succeeding until the next read operation); the error is not looked at.
\<close>

fun seek_from :: "nat \<Rightarrow> byte list \<Rightarrow> byte list" where
  "seek_from 0 bs = bs"
| "seek_from (Suc n) [] = []"
| "seek_from (Suc n) (b # rest) = (if b \<le> 17 \<and> rest \<noteq> [] then rest else seek_from n rest)"

definition seekToNextRecord :: "byte list \<Rightarrow> byte list" where
  "seekToNextRecord bs = seek_from 1000 bs"

text \<open>
  \<^verbatim>\<open>handleError\<close>: count the error, tell \<^verbatim>\<open>OnError\<close>, give up when the callback returns an
  error or the count is above \<^verbatim>\<open>maxErrors\<close>, else seek and go on when \<^verbatim>\<open>skipOnError\<close> is
  set.
\<close>

definition after_callback :: "'u StreamingParser \<Rightarrow> byte list \<Rightarrow> bool \<times> 'u StreamingParser \<times> byte list" where
  "after_callback st bs =
     (if errorCount st > maxErrors st then (False, st, bs)
      else if skipOnError st then (True, st, seekToNextRecord bs)
      else (False, st, bs))"

definition handleError ::
  "dump_error \<Rightarrow> 'u StreamingParser \<Rightarrow> byte list \<Rightarrow> bool \<times> 'u StreamingParser \<times> byte list" where
  "handleError err st bs =
     (let st1 = st\<lparr>errorCount := errorCount st + 1\<rparr> in
      case invoke (map_option (\<lambda>f. f err (skipOnError st1)) (OnError (callbacks st1))) st1 of
        (Some recoveryErr, st2) \<Rightarrow> (False, st2, bs)
      | (None, st2) \<Rightarrow> after_callback st2 bs)"

text \<open>
  How an iteration of the record loop ends: \<^verbatim>\<open>Parse\<close> returns, or the loop goes on. The
  pattern \<^verbatim>\<open>if !p.handleError(fmt.Errorf("msg: %w", err)) { return ret }\<close> is \<open>recover\<close>.
\<close>

datatype 's outcome = Stop "dump_error option" 's | Continue 's "byte list"

definition recover ::
  "dump_error \<Rightarrow> dump_error \<Rightarrow> 'u StreamingParser \<Rightarrow> byte list \<Rightarrow> 'u StreamingParser outcome" where
  "recover reported ret st bs =
     (if ret = Panic then Stop (Some Panic) st
      else
        (case handleError reported st bs of
           (False, st', bs') \<Rightarrow> Stop (Some ret) st'
         | (True, st', bs') \<Rightarrow> Continue st' bs'))"

text \<open>The \<^verbatim>\<open>switch tag\<close> of \<^verbatim>\<open>Parse\<close>, for the tags other than \<open>tagEOF\<close>.\<close>

definition record_step :: "64 word \<Rightarrow> 'u StreamingParser \<Rightarrow> byte list \<Rightarrow> 'u StreamingParser outcome" where
  "record_step tag st bs =
     (if tag = tagParams then
        (case stream_parseParams st bs of
           (Some err, st', bs') \<Rightarrow> Stop (Some (wrap_error ''parsing params'' err)) st'
         | (None, st', bs') \<Rightarrow> Continue st' bs')
      else if tag = tagType then
        (case stream_parseType st bs of
           (Some err, st', bs') \<Rightarrow>
             if OnType (callbacks st') \<noteq> None then Stop (Some (wrap_error ''parsing type'' err)) st'
             else recover (Wrapped ''parsing type'' err) (wrap_error ''parsing type'' err) st' bs'
         | (None, st', bs') \<Rightarrow> Continue st' bs')
      else if tag = tagObject then
        (case stream_parseObject st bs of
           (Some err, st', bs') \<Rightarrow> recover (Wrapped ''parsing object'' err) err st' bs'
         | (None, st', bs') \<Rightarrow> Continue st' bs')
      else if tag = tagOtherRoot then
        (case stream_parseRoot st bs of
           (Some err, st', bs') \<Rightarrow> recover (Wrapped ''parsing root'' err) err st' bs'
         | (None, st', bs') \<Rightarrow> Continue st' bs')
      else if tag = tagGoroutine then
        (case stream_parseGoroutine st bs of
           (Some err, st', bs') \<Rightarrow> recover (Wrapped ''parsing goroutine'' err) err st' bs'
         | (None, st', bs') \<Rightarrow> Continue st' bs')
      else
        (case skipUnknown tag bs of
           (Inl err, bs') \<Rightarrow> recover (SkipFailed tag err) err st bs'
         | (Inr u, bs') \<Rightarrow> Continue st bs'))"

text \<open>No step gives back more of the stream than it was given.\<close>

definition step_consuming :: "'s step \<Rightarrow> bool" where
  "step_consuming a \<longleftrightarrow> (\<forall>st bs. length (snd (snd (a st bs))) \<le> length bs)"

lemma step_consumingD:
  "step_consuming a \<Longrightarrow> a st bs = (r, st', bs') \<Longrightarrow> length bs' \<le> length bs"
  by (metis step_consuming_def snd_conv)

lemma step_consuming_store: "consuming m \<Longrightarrow> step_consuming (store m f)"
  unfolding step_consuming_def store_def
proof (intro allI)
  fix st bs assume m: "consuming m"
  obtain r bs' where r: "m bs = (r, bs')" by (cases "m bs") auto
  with m have "length bs' \<le> length bs" by (rule consumingD)
  with r show "length (snd (snd (case m bs of (Inl e, bs') \<Rightarrow> (Some e, st, bs')
      | (Inr x, bs') \<Rightarrow> (None, f x st, bs')))) \<le> length bs"
    by (cases r) auto
qed

lemma step_consuming_assign: "consuming m \<Longrightarrow> step_consuming (assign m returned f)"
  unfolding step_consuming_def assign_def
proof (intro allI)
  fix st bs assume m: "consuming m"
  obtain r bs' where r: "m bs = (r, bs')" by (cases "m bs") auto
  with m have "length bs' \<le> length bs" by (rule consumingD)
  with r show "length (snd (snd (case m bs of (Inl e, bs') \<Rightarrow> (Some e, f (returned bs) st, bs')
      | (Inr x, bs') \<Rightarrow> (None, f x st, bs')))) \<le> length bs"
    by (cases r) auto
qed

lemma step_consuming_read_then: "consuming m \<Longrightarrow> step_consuming (read_then m k)"
  unfolding step_consuming_def read_then_def
proof (intro allI)
  fix st bs assume m: "consuming m"
  obtain r bs' where r: "m bs = (r, bs')" by (cases "m bs") auto
  with m have "length bs' \<le> length bs" by (rule consumingD)
  with r show "length (snd (snd (case m bs of (Inl e, bs') \<Rightarrow> (Some e, st, bs')
      | (Inr x, bs') \<Rightarrow> (case k x st of (r, st') \<Rightarrow> (r, st', bs'))))) \<le> length bs"
    by (cases r) (auto split: prod.splits)
qed

lemma step_consuming_and_then:
  assumes "step_consuming a" "step_consuming b"
  shows "step_consuming (and_then a b)"
  unfolding step_consuming_def
proof (intro allI)
  fix st bs
  obtain r st1 bs1 where a: "a st bs = (r, st1, bs1)" by (cases "a st bs") auto
  with assms(1) have l1: "length bs1 \<le> length bs" by (rule step_consumingD)
  show "length (snd (snd (and_then a b st bs))) \<le> length bs"
  proof (cases r)
    case (Some e)
    with a l1 show ?thesis by (simp add: and_then_def)
  next
    case None
    obtain r2 st2 bs2 where b: "b st1 bs1 = (r2, st2, bs2)" by (cases "b st1 bs1") auto
    with assms(2) have "length bs2 \<le> length bs1" by (rule step_consumingD)
    with a b l1 None show ?thesis by (simp add: and_then_def)
  qed
qed

lemma consuming_stream_readVarint: "consuming stream_readVarint"
  by (simp add: stream_readVarint_def consuming_ReadUvarint)

lemma consuming_stream_readString: "consuming stream_readString"
  unfolding stream_readString_def
  by (intro consuming_then_read consuming_stream_readVarint)
    (simp add: consuming_failed consuming_then_read consuming_ReadFull consuming_ok)

lemma consuming_stream_readBytes: "consuming stream_readBytes"
  unfolding stream_readBytes_def
  by (intro consuming_then_read consuming_stream_readVarint)
    (simp add: consuming_failed consuming_then_read consuming_ReadFull consuming_ok)

lemma consuming_stream_skip_varints: "consuming (stream_skip_varints n)"
proof -
  have "length (snd (stream_skip_varints n bs)) \<le> length bs" for bs
  proof (induction n arbitrary: bs)
    case 0
    then show ?case by simp
  next
    case (Suc n)
    obtain r bs' where r: "stream_readVarint bs = (r, bs')" by (cases "stream_readVarint bs") auto
    with consuming_stream_readVarint have "length bs' \<le> length bs" by (rule consumingD)
    with Suc [of bs'] r show ?case by (cases r) auto
  qed
  then show ?thesis by (simp add: consuming_def)
qed

lemmas stream_consuming_intros = consuming_then_read consuming_stream_readVarint
  consuming_stream_readString consuming_stream_readBytes consuming_stream_skip_varints
  consuming_object_fields consuming_ok consuming_failed consuming_wrap

lemma step_consuming_parseParams: "step_consuming stream_parseParams"
proof -
  have last: "step_consuming (\<lambda>st bs. case k st of (r, st') \<Rightarrow> (r, st', bs))"
    for k :: "'s \<Rightarrow> dump_error option \<times> 's"
    by (simp add: step_consuming_def split: prod.splits)
  show ?thesis
    unfolding stream_parseParams_def
    by (intro step_consuming_and_then step_consuming_store step_consuming_assign
        stream_consuming_intros last)
qed

lemma step_consuming_parseType: "step_consuming stream_parseType"
  unfolding stream_parseType_def
  by (intro step_consuming_read_then stream_consuming_intros)

lemma consuming_read_object: "consuming (read_object ps)"
proof -
  have "consuming (case type_addr_of ps data of
         Inl e \<Rightarrow> failed e
       | Inr typeAddr \<Rightarrow>
           then_read (object_fields (BigEndian ps) (PointerSize ps) data [])
             (\<lambda>pointers. ok (addr, typeAddr, data, pointers)))" for addr data
    by (cases "type_addr_of ps data") (simp_all add: stream_consuming_intros)
  then show ?thesis
    unfolding read_object_def by (intro stream_consuming_intros)
qed

lemma step_consuming_parseObject: "step_consuming stream_parseObject"
  unfolding step_consuming_def
proof (intro allI)
  fix st :: "'u StreamingParser" and bs
  obtain r st' bs' where r: "stream_parseObject st bs = (r, st', bs')"
    by (cases "stream_parseObject st bs") auto
  from step_consuming_read_then [OF consuming_read_object] r
  have "length bs' \<le> length bs"
    unfolding stream_parseObject_def by (rule step_consumingD)
  with r show "length (snd (snd (stream_parseObject st bs))) \<le> length bs" by simp
qed

lemma step_consuming_parseRoot: "step_consuming stream_parseRoot"
  unfolding stream_parseRoot_def
  by (intro step_consuming_read_then stream_consuming_intros)

lemma step_consuming_parseGoroutine: "step_consuming stream_parseGoroutine"
  unfolding stream_parseGoroutine_def
  by (intro step_consuming_read_then stream_consuming_intros)

lemma consuming_skipUnknown: "consuming (skipUnknown tag)"
  by (simp add: skipUnknown_def stream_consuming_intros)

lemma seek_from_length: "length (seek_from n bs) \<le> length bs"
  by (induction n bs rule: seek_from.induct) auto

lemma handleError_length:
  assumes "handleError err st bs = (b, st', bs')"
  shows "length bs' \<le> length bs"
  using assms seek_from_length [of 1000 bs]
  by (auto simp: handleError_def after_callback_def seekToNextRecord_def Let_def
      split: prod.splits option.splits if_splits)

lemma recover_length:
  assumes "recover reported ret st bs = Continue st' bs'"
  shows "length bs' \<le> length bs"
proof -
  obtain b st1 bs1 where h: "handleError reported st bs = (b, st1, bs1)"
    by (cases "handleError reported st bs") auto
  with assms have "bs' = bs1" by (auto simp: recover_def split: if_splits bool.splits)
  with handleError_length [OF h] show ?thesis by simp
qed

lemma record_step_length:
  assumes "record_step tag st bs = Continue st' bs'"
  shows "length bs' \<le> length bs"
proof -
  have step: "length bs1 \<le> length bs"
    if "step_consuming a" "a st bs = (r, st1, bs1)" for a r st1 bs1
    using that by (rule step_consumingD)
  note steps = step [OF step_consuming_parseParams] step [OF step_consuming_parseType]
    step [OF step_consuming_parseObject] step [OF step_consuming_parseRoot]
    step [OF step_consuming_parseGoroutine]
  have unknown: "length bs1 \<le> length bs" if "skipUnknown tag bs = (r, bs1)" for r bs1
    using consuming_skipUnknown that by (rule consumingD)
  show ?thesis
    using assms
    by (auto simp: record_step_def split: if_splits prod.splits option.splits sum.splits
        dest!: steps unknown recover_length)
qed

lemma stream_readVarint_error_sym:
  "(Inl err, bs1) = stream_readVarint bs \<Longrightarrow> err \<noteq> EOF \<Longrightarrow> length bs1 < length bs"
  using ReadUvarint_error_length [of bs err bs1] by (simp add: stream_readVarint_def)

lemma stream_readVarint_value_sym:
  "(Inr v, bs1) = stream_readVarint bs \<Longrightarrow> length bs1 < length bs"
  using ReadUvarint_value_length [of bs v bs1] by (simp add: stream_readVarint_def)

text \<open>
  The body of the loop \<^verbatim>\<open>for { ... }\<close> of \<^verbatim>\<open>Parse\<close>: read the tag, then the record. The
  end of the stream where a tag is expected and the tag \<open>tagEOF\<close> end the parse without
  an error.
\<close>

definition parse_iteration :: "'u StreamingParser \<Rightarrow> byte list \<Rightarrow> 'u StreamingParser outcome" where
  "parse_iteration st bs =
     (case stream_readVarint bs of
        (Inl err, bs1) \<Rightarrow>
          if err = EOF then Stop None st
          else recover (Wrapped ''reading tag'' err) err st bs1
      | (Inr tag, bs1) \<Rightarrow>
          if tag = tagEOF then Stop None st
          else record_step tag st bs1)"

lemma parse_iteration_length:
  assumes "parse_iteration st bs = Continue st' bs'"
  shows "length bs' < length bs"
proof -
  obtain v bs1 where v: "stream_readVarint bs = (v, bs1)" by (cases "stream_readVarint bs") auto
  show ?thesis
  proof (cases v)
    case (Inl err)
    with assms v have e: "err \<noteq> EOF"
      and r: "recover (Wrapped ''reading tag'' err) err st bs1 = Continue st' bs'"
      by (auto simp: parse_iteration_def split: if_splits)
    from v Inl e have "length bs1 < length bs"
      by (intro stream_readVarint_error_sym [of err bs1 bs]) simp_all
    with recover_length [OF r] show ?thesis by simp
  next
    case (Inr tag)
    with assms v have r: "record_step tag st bs1 = Continue st' bs'"
      by (auto simp: parse_iteration_def split: if_splits)
    from v Inr have "length bs1 < length bs"
      by (intro stream_readVarint_value_sym [of tag bs1 bs]) simp
    with record_step_length [OF r] show ?thesis by simp
  qed
qed

text \<open>
  The record loop of \<^verbatim>\<open>Parse\<close> and \<^verbatim>\<open>Parse\<close> itself. The result is the error returned,
  \<open>None\<close> for \<^verbatim>\<open>nil\<close>, and the parser as the call leaves it.
\<close>

function stream_records :: "'u StreamingParser \<Rightarrow> byte list \<Rightarrow> dump_error option \<times> 'u StreamingParser" where
  "stream_records st bs =
     (case parse_iteration st bs of
        Stop r st' \<Rightarrow> (r, st')
      | Continue st' bs' \<Rightarrow> stream_records st' bs')"
  by pat_completeness auto
termination
  by (relation "measure (\<lambda>(st, bs). length bs)")
    (auto dest!: parse_iteration_length parse_iteration_length [OF sym])

declare stream_records.simps [simp del]

definition Stream_Parse :: "'u StreamingParser \<Rightarrow> byte list \<Rightarrow> dump_error option \<times> 'u StreamingParser" where
  "Stream_Parse st bs =
     (case ReadFull 16 bs of
        (Inl e, bs1) \<Rightarrow> (Some (wrap_error ''reading header'' e), st)
      | (Inr header, bs1) \<Rightarrow>
          if header \<noteq> header_magic then (Some (InvalidHeader header), st)
          else stream_records st bs1)"

section \<open>The parser registry (heapdump/parser.go, heapdump/registry.go)\<close>

text \<open>
  A \<^verbatim>\<open>Parser\<close> has the two methods of the interface. \<^verbatim>\<open>CanParse\<close> is given a reader over
  the preview bytes, \<^verbatim>\<open>Parse\<close> a reader over the whole input; both are functions of the
  bytes those readers deliver.
\<close>

record Parser =
  CanParse :: "byte list \<Rightarrow> bool"
  Parse :: "byte list \<Rightarrow> dump_error + MemGraph"

text \<open>
  The \<^verbatim>\<open>io.Reader\<close> given to \<^verbatim>\<open>Open\<close>: the bytes it has still to deliver, the largest
  number of bytes one \<^verbatim>\<open>Read\<close> delivers (a reader may return fewer bytes than asked
  for, but at least one), and the failure, if any, that its next \<^verbatim>\<open>Read\<close> reports in
  place of data. At the end of the content a \<^verbatim>\<open>Read\<close> returns \<open>EOF\<close>.
\<close>

record Reader =
  content :: "byte list"
  chunk :: nat
  failure :: "string option"

definition Read :: "Reader \<Rightarrow> nat \<Rightarrow> byte list \<times> dump_error option \<times> Reader" where
  "Read r n =
     (case failure r of
        Some msg \<Rightarrow> ([], Some (ReadFailure msg), r)
      | None \<Rightarrow>
          if content r = [] then ([], Some EOF, r)
          else
            let k = min n (min (max 1 (chunk r)) (length (content r)))
            in (take k (content r), None, r\<lparr>content := drop k (content r)\<rparr>))"

text \<open>\<^verbatim>\<open>Register\<close> appends to the slice of parsers.\<close>

definition Register :: "Parser list \<Rightarrow> Parser \<Rightarrow> Parser list" where
  "Register registry p = registry @ [p]"

text \<open>
  The loop of \<^verbatim>\<open>Open\<close> over the registered parsers: the first whose \<^verbatim>\<open>CanParse\<close> accepts
  the preview parses \<open>input\<close>, the bytes of \<^verbatim>\<open>io.MultiReader(bytes.NewReader(detectBuf[:n]), r)\<close>.
\<close>

fun try_parsers :: "Parser list \<Rightarrow> byte list \<Rightarrow> byte list \<Rightarrow> dump_error + MemGraph" where
  "try_parsers [] preview input = Inl ErrNoParser"
| "try_parsers (p # ps) preview input =
     (if CanParse p preview then Parse p input else try_parsers ps preview input)"

definition Open :: "Parser list \<Rightarrow> Reader \<Rightarrow> dump_error + MemGraph" where
  "Open registry r =
     (case Read r 4096 of
        (preview, err, r') \<Rightarrow>
          (case err of
             Some e \<Rightarrow>
               if e \<noteq> EOF then Inl e
               else try_parsers registry preview (preview @ content r')
           | None \<Rightarrow> try_parsers registry preview (preview @ content r')))"

definition GoHeapParser :: Parser where
  "GoHeapParser = \<lparr>CanParse = GoHeap_CanParse, Parse = GoHeap_Parse\<rparr>"

section \<open>The JSON fixture parser (heapdump/json_stub.go)\<close>

record jsonObject =
  json_ID :: ObjID
  json_Type :: string
  json_Size :: "64 word"
  json_Ptrs :: "ObjID list option"

record jsonDump =
  Objects :: "jsonObject list"
  Roots :: "ObjID list option"

text \<open>
  The validation loop: the index of the first object whose id is 0, the value a missing
  \<^verbatim>\<open>id\<close> key leaves in the field.
\<close>

fun first_missing_id :: "nat \<Rightarrow> jsonObject list \<Rightarrow> nat option" where
  "first_missing_id i [] = None"
| "first_missing_id i (obj # rest) =
     (if json_ID obj = 0 then Some i else first_missing_id (Suc i) rest)"

definition graph_object :: "jsonObject \<Rightarrow> Object" where
  "graph_object obj =
     \<lparr>ID = json_ID obj, Type = json_Type obj, Size = json_Size obj,
      Ptrs = Some (case json_Ptrs obj of None \<Rightarrow> [] | Some ps \<Rightarrow> ps)\<rparr>"

text \<open>
  \<^verbatim>\<open>JSONStub.Parse\<close>. The decoding of the bytes into a \<^verbatim>\<open>jsonDump\<close> is the work of
  \<^verbatim>\<open>encoding/json\<close> and is a parameter.
\<close>

definition JSONStub_Parse ::
  "(byte list \<Rightarrow> dump_error + jsonDump) \<Rightarrow> byte list \<Rightarrow> dump_error + MemGraph" where
  "JSONStub_Parse decode bs =
     (case decode bs of
        Inl e \<Rightarrow> Inl (Wrapped ''failed to decode JSON'' e)
      | Inr dump \<Rightarrow>
          (case first_missing_id 0 (Objects dump) of
             Some i \<Rightarrow> Inl (MissingID i)
           | None \<Rightarrow>
               Inr (SetRoots (foldl (\<lambda>g obj. AddObject g (graph_object obj)) NewMemGraph (Objects dump))
                      (case Roots dump of None \<Rightarrow> [] | Some rs \<Rightarrow> rs))))"

section \<open>Properties of the reverse-edge index and of the path search\<close>

text \<open>A graph built with \<^verbatim>\<open>AddObject\<close> stores every object under its own id.\<close>

lemma keyed_by_id_NewMemGraph: "keyed_by_id NewMemGraph"
  by (simp add: keyed_by_id_def NewMemGraph_def)

lemma keyed_by_id_AddObject: "keyed_by_id g \<Longrightarrow> keyed_by_id (AddObject g obj)"
  by (simp add: keyed_by_id_def AddObject_def)

lemma keyed_by_id_SetRoots: "keyed_by_id g \<Longrightarrow> keyed_by_id (SetRoots g rs)"
  by (simp add: keyed_by_id_def SetRoots_def)

lemma mset_referrers_add:
  "mset (referrers (add_referrer src reverse t) k) =
     mset (referrers reverse k) + (if k = t then {#src#} else {#})"
  by (simp add: add_referrer_def referrers_def)

lemma mset_referrers_object:
  "mset (referrers (foldl (add_referrer src) reverse ps) k) =
     mset (referrers reverse k) + replicate_mset (count_list ps k) src"
  by (induction ps arbitrary: reverse) (simp_all add: mset_referrers_add)

lemma mset_referrers_objects:
  "mset (referrers (foldl add_object_edges reverse objs) k) =
     mset (referrers reverse k) +
     (\<Sum>obj\<leftarrow>objs. replicate_mset (count_list (ptrs_of obj) k) (ID obj))"
  by (induction objs arbitrary: reverse)
    (simp_all add: add_object_edges_def mset_referrers_object)

lemma mset_BuildReverseEdges:
  "mset (referrers (BuildReverseEdges ord g) k) =
     (\<Sum>obj\<leftarrow>ForEachObject ord g. replicate_mset (count_list (ptrs_of obj) k) (ID obj))"
proof -
  have "mset (referrers Map.empty k) = {#}" by (simp add: referrers_def)
  then show ?thesis by (simp only: BuildReverseEdges_def mset_referrers_objects) simp
qed

lemma in_sum_list_mset: "x \<in># (\<Sum>y\<leftarrow>ys. f y) \<longleftrightarrow> (\<exists>y \<in> set ys. x \<in># f y)"
  by (induction ys) auto

lemma referrer_iff:
  "b \<in> set (referrers (BuildReverseEdges ord g) a) \<longleftrightarrow>
     (\<exists>obj \<in> set (ForEachObject ord g). ID obj = b \<and> a \<in> set (ptrs_of obj))"
proof -
  have "b \<in> set (referrers (BuildReverseEdges ord g) a) \<longleftrightarrow>
        b \<in># mset (referrers (BuildReverseEdges ord g) a)" by simp
  also have "\<dots> \<longleftrightarrow> (\<exists>obj \<in> set (ForEachObject ord g).
      b \<in># replicate_mset (count_list (ptrs_of obj) a) (ID obj))"
    by (simp only: mset_BuildReverseEdges in_sum_list_mset)
  also have "\<dots> \<longleftrightarrow> (\<exists>obj \<in> set (ForEachObject ord g). ID obj = b \<and> a \<in> set (ptrs_of obj))"
    by (auto simp: count_list_0_iff)
  finally show ?thesis .
qed

lemma ForEachObject_set:
  "obj \<in> set (ForEachObject ord g) \<longleftrightarrow> (\<exists>k \<in> set ord. objects g k = Some obj)"
  by (induction ord) (auto simp: ForEachObject_def split: option.splits)

lemma referrer_points_to:
  assumes "keyed_by_id g" "b \<in> set (referrers (BuildReverseEdges ord g) a)"
  shows "points_to g a b"
proof -
  from assms(2) obtain obj where obj: "obj \<in> set (ForEachObject ord g)" "ID obj = b" "a \<in> set (ptrs_of obj)"
    by (auto simp: referrer_iff)
  then obtain k where "objects g k = Some obj" by (auto simp: ForEachObject_set)
  moreover from this assms(1) have "k = b" using obj(2) by (auto simp: keyed_by_id_def)
  ultimately show ?thesis using obj(3) by (auto simp: points_to_def)
qed

lemma linked_extend:
  assumes "linked g p" "p \<noteq> []" "points_to g (last p) r"
  shows "linked g (p @ [r])"
  unfolding linked_def
proof (intro allI impI)
  fix i assume "i < length (p @ [r]) - 1"
  then have i: "Suc i < length (p @ [r])" by simp
  show "points_to g ((p @ [r]) ! i) ((p @ [r]) ! Suc i)"
  proof (cases "Suc i < length p")
    case True
    then have "i < length p - 1" by simp
    with assms(1) have "points_to g (p ! i) (p ! Suc i)" by (simp add: linked_def)
    then show ?thesis using True by (simp add: nth_append)
  next
    case False
    with i have "i = length p - 1" by simp
    then show ?thesis using assms(2,3) by (simp add: nth_append last_conv_nth)
  qed
qed

text \<open>The invariant of the search: what every queued node and every emitted path satisfies.\<close>

definition partial_path :: "MemGraph \<Rightarrow> ObjID \<Rightarrow> searchNode \<Rightarrow> bool" where
  "partial_path g from n \<longleftrightarrow>
     snd n \<noteq> [] \<and> hd (snd n) = from \<and> last (snd n) = fst n \<and> linked g (snd n) \<and> distinct (snd n)"

lemma scan_referrers_valid:
  assumes "partial_path g from (i, path)"
    and "\<forall>r \<in> set refs. points_to g i r"
    and "\<forall>p \<in> set result. valid_path g from p"
    and "\<forall>n \<in> set queue. partial_path g from n"
    and "scan_referrers (\<lambda>i. i \<in> set (roots g)) maxPaths path refs result queue = (result', queue')"
  shows "(\<forall>p \<in> set result'. valid_path g from p) \<and> (\<forall>n \<in> set queue'. partial_path g from n)"
  using assms(2-)
proof (induction refs arbitrary: result queue)
  case Nil
  then show ?case by simp
next
  case (Cons r refs)
  have ext: "r \<notin> set path \<Longrightarrow> partial_path g from (r, path @ [r])"
    using assms(1) Cons.prems(1) by (auto simp: partial_path_def intro: linked_extend)
  have extv: "r \<notin> set path \<Longrightarrow> r \<in> set (roots g) \<Longrightarrow> valid_path g from (path @ [r])"
    using ext by (auto simp: partial_path_def valid_path_def)
  from Cons.prems(1) have refs: "\<forall>r \<in> set refs. points_to g i r" by simp
  show ?case
  proof (cases "r \<in> set path")
    case True
    with Cons.prems(4) have "scan_referrers (\<lambda>i. i \<in> set (roots g)) maxPaths path refs result queue = (result', queue')"
      by simp
    from Cons.IH [OF refs Cons.prems(2,3) this] show ?thesis .
  next
    case False
    note fresh = this
    show ?thesis
    proof (cases "r \<in> set (roots g)")
      case True
      have res: "\<forall>p \<in> set (result @ [path @ [r]]). valid_path g from p"
        using Cons.prems(2) extv [OF fresh True] by auto
      show ?thesis
      proof (cases "int (length (result @ [path @ [r]])) \<ge> maxPaths")
        case True
        with fresh \<open>r \<in> set (roots g)\<close> Cons.prems(4)
        have "result' = result @ [path @ [r]]" "queue' = queue" by (simp_all add: Let_def)
        then show ?thesis using res Cons.prems(3) by simp
      next
        case False
        with fresh \<open>r \<in> set (roots g)\<close> Cons.prems(4)
        have "scan_referrers (\<lambda>i. i \<in> set (roots g)) maxPaths path refs (result @ [path @ [r]]) queue = (result', queue')"
          by (simp add: Let_def)
        from Cons.IH [OF refs res Cons.prems(3) this] show ?thesis .
      qed
    next
      case False
      with fresh Cons.prems(4)
      have "scan_referrers (\<lambda>i. i \<in> set (roots g)) maxPaths path refs result (queue @ [(r, path @ [r])]) = (result', queue')"
        by (simp add: Let_def)
      moreover have "\<forall>n \<in> set (queue @ [(r, path @ [r])]). partial_path g from n"
        using Cons.prems(3) ext [OF fresh] by auto
      ultimately show ?thesis using Cons.IH [OF refs Cons.prems(2)] by blast
    qed
  qed
qed

lemma bfs_loop_valid:
  assumes "keyed_by_id g"
  shows "(\<forall>n \<in> set queue. partial_path g from n) \<Longrightarrow> (\<forall>p \<in> set result. valid_path g from p) \<Longrightarrow>
    p \<in> set (bfs_loop (BuildReverseEdges ord g) (\<lambda>i. i \<in> set (roots g)) maxPaths queue result) \<Longrightarrow>
    valid_path g from p"
proof (induction "BuildReverseEdges ord g" "\<lambda>i. i \<in> set (roots g)" maxPaths queue result
    rule: bfs_loop.induct)
  case (1 maxPaths result)
  then show ?case by simp
next
  case (2 maxPaths node queue result)
  show ?case
  proof (cases "int (length result) < maxPaths")
    case False
    with 2 show ?thesis by simp
  next
    case True
    obtain result' queue' where sc:
      "scan_referrers (\<lambda>i. i \<in> set (roots g)) maxPaths (snd node)
         (referrers (BuildReverseEdges ord g) (fst node)) result queue = (result', queue')"
      by (cases "scan_referrers (\<lambda>i. i \<in> set (roots g)) maxPaths (snd node)
         (referrers (BuildReverseEdges ord g) (fst node)) result queue") auto
    have node: "partial_path g from (fst node, snd node)" using "2.prems"(1) by simp
    have refs: "\<forall>r \<in> set (referrers (BuildReverseEdges ord g) (fst node)). points_to g (fst node) r"
      using assms by (auto intro: referrer_points_to)
    have q: "\<forall>n \<in> set queue. partial_path g from n" using "2.prems"(1) by simp
    from scan_referrers_valid [OF node refs "2.prems"(2) q sc]
    have inv: "\<forall>n \<in> set queue'. partial_path g from n" "\<forall>p \<in> set result'. valid_path g from p"
      by simp_all
    have "p \<in> set (bfs_loop (BuildReverseEdges ord g) (\<lambda>i. i \<in> set (roots g)) maxPaths queue' result')"
      using "2.prems"(3) True sc by simp
    from "2.hyps" [OF True sc [symmetric] inv this] show ?thesis .
  qed
qed

text \<open>
  C4. Every path returned by \<^verbatim>\<open>PathsToRoots(g, from, maxPaths)\<close>, for any iteration order of
  the object map, is non-empty, starts at \<open>from\<close>, links each element to the next by a
  pointer of the later element's object, ends in a root, and repeats no id.
\<close>

theorem PathsToRoots_valid:
  assumes "keyed_by_id g" and "p \<in> set (PathsToRoots ord g from maxPaths)"
  shows "valid_path g from p"
proof (cases "maxPaths \<le> 0")
  case True
  with assms(2) show ?thesis by (simp add: PathsToRoots_def)
next
  case False
  show ?thesis
  proof (cases "from \<in> set (roots g)")
    case True
    with False assms(2) have "p = [from]" by (simp add: PathsToRoots_def GetRoots_def)
    then show ?thesis using True by (simp add: valid_path_def linked_def)
  next
    case False
    have start: "\<forall>n \<in> set [(from, [from])]. partial_path g from n"
      by (simp add: partial_path_def linked_def)
    have "p \<in> set (bfs_loop (BuildReverseEdges ord g) (\<lambda>i. i \<in> set (roots g)) maxPaths [(from, [from])] [])"
      using assms(2) False \<open>\<not> maxPaths \<le> 0\<close> by (simp add: PathsToRoots_def GetRoots_def del: bfs_loop.simps)
    from bfs_loop_valid [OF assms(1) start _ this] show ?thesis by simp
  qed
qed


text \<open>A root pointing to a leaf: the search from the leaf finds the one path, and it is valid.\<close>

definition two_objects :: MemGraph where
  "two_objects = SetRoots (AddObject (AddObject NewMemGraph
      \<lparr>ID = 1, Type = ''root'', Size = 8, Ptrs = Some [2]\<rparr>)
      \<lparr>ID = 2, Type = ''leaf'', Size = 8, Ptrs = Some []\<rparr>) [1]"

theorem PathsToRoots_valid_witness:
  "keyed_by_id two_objects \<and> [2, 1] \<in> set (PathsToRoots [1, 2] two_objects 2 5) \<and>
   valid_path two_objects 2 [2, 1]"
proof -
  have k: "keyed_by_id two_objects"
    by (simp add: keyed_by_id_def two_objects_def SetRoots_def AddObject_def NewMemGraph_def)
  have "PathsToRoots [1, 2] two_objects 2 5 = [[2, 1]]"
    by (simp add: two_objects_def SetRoots_def AddObject_def NewMemGraph_def
        BuildReverseEdges_def ForEachObject_def add_object_edges_def add_referrer_def
        referrers_def ptrs_of_def PathsToRoots_def GetRoots_def)
  then have m: "[2, 1] \<in> set (PathsToRoots [1, 2] two_objects 2 5)" by simp
  from PathsToRoots_valid [OF k m] k m show ?thesis by blast
qed
section \<open>The linear chain\<close>

text \<open>Every iteration order of a map with three or four keys is one of the permutations.\<close>

lemma orders_of_3:
  assumes "distinct xs" "set xs = {a, b, c}" "a \<noteq> b" "a \<noteq> c" "b \<noteq> c"
  shows "xs \<in> {[a, b, c], [a, c, b], [b, a, c], [b, c, a], [c, a, b], [c, b, a]}"
proof -
  have "length xs = 3" using distinct_card [OF assms(1)] assms(2-) by simp
  then obtain x y z where xs: "xs = [x, y, z]"
    by (auto simp: length_Suc_conv numeral_3_eq_3)
  have "x \<in> {a, b, c}" "y \<in> {a, b, c}" "z \<in> {a, b, c}" using assms(2) xs by auto
  then show ?thesis using assms(1) xs by auto
qed

lemma orders_of_4:
  assumes "distinct xs" "set xs = {a, b, c, d}" "distinct [a, b, c, d]"
  shows "xs \<in> {[a, b, c, d], [a, b, d, c], [a, c, b, d], [a, c, d, b], [a, d, b, c], [a, d, c, b],
    [b, a, c, d], [b, a, d, c], [b, c, a, d], [b, c, d, a], [b, d, a, c], [b, d, c, a],
    [c, a, b, d], [c, a, d, b], [c, b, a, d], [c, b, d, a], [c, d, a, b], [c, d, b, a],
    [d, a, b, c], [d, a, c, b], [d, b, a, c], [d, b, c, a], [d, c, a, b], [d, c, b, a]}"
proof -
  from assms(2) have "xs \<noteq> []" by auto
  then obtain x ys where xs: "xs = x # ys" by (cases xs) auto
  with assms(1) have ys: "distinct ys" "x \<notin> set ys" by auto
  from assms(2) xs have x: "x \<in> {a, b, c, d}" by auto
  from assms(3) have ne: "a \<noteq> b" "a \<noteq> c" "a \<noteq> d" "b \<noteq> c" "b \<noteq> d" "c \<noteq> d" by auto
  have rest: "set ys = {a, b, c, d} - {x}" using assms(2) xs ys(2) by auto
  from x consider "x = a" | "x = b" | "x = c" | "x = d" by auto
  then show ?thesis
  proof cases
    case 1
    with rest ne have "set ys = {b, c, d}" by auto
    from orders_of_3 [OF ys(1) this ne(4,5,6)] show ?thesis unfolding xs 1
      by (elim insertE emptyE) simp_all
  next
    case 2
    with rest ne have "set ys = {a, c, d}" by auto
    from orders_of_3 [OF ys(1) this ne(2,3,6)] show ?thesis unfolding xs 2
      by (elim insertE emptyE) simp_all
  next
    case 3
    with rest ne have "set ys = {a, b, d}" by auto
    from orders_of_3 [OF ys(1) this ne(1,3,5)] show ?thesis unfolding xs 3
      by (elim insertE emptyE) simp_all
  next
    case 4
    with rest ne have "set ys = {a, b, c}" by auto
    from orders_of_3 [OF ys(1) this ne(1,2,4)] show ?thesis unfolding xs 4
      by (elim insertE emptyE) simp_all
  qed
qed


text \<open>Unfolding the depth-bounded recursions at numerals.\<close>

lemma dfs_numeral:
  "dfs (numeral k) adj v p s =
     (case dfnum s v of Some n \<Rightarrow> Inr s
      | None \<Rightarrow> dfs_each (pred_numeral k) adj (get_list adj v) (dfsNum s) (visit v p s))"
  by (simp add: numeral_eq_Suc)

lemma reverse_pass_numeral:
  "reverse_pass allObjects adj (numeral k) s =
     then_do (process_vertex allObjects adj (int (numeral k)) s) (reverse_pass allObjects adj (pred_numeral k))"
  by (simp only: numeral_eq_Suc reverse_pass.simps)

lemma upt_from_1: "[Suc 0..<numeral k] = (if Suc 0 < numeral k then Suc 0 # [2..<numeral k] else [])"
  by (simp add: upt_rec [of "Suc 0"] numeral_2_eq_2)

lemma reverse_pass_1:
  "reverse_pass allObjects adj 1 s = process_vertex allObjects adj 1 s"
proof -
  have "reverse_pass allObjects adj (Suc 0) s = process_vertex allObjects adj 1 s"
    by (cases "process_vertex allObjects adj 1 s") simp_all
  then show ?thesis by simp
qed


lemma computeRetained_numeral:
  "computeRetained (numeral k) objSizes tree nodeID retained =
     (case retained nodeID of
        Some sz \<Rightarrow> Inr (sz, retained)
      | None \<Rightarrow>
          (case add_children (pred_numeral k) objSizes tree (get_list tree nodeID) (get0 objSizes nodeID) retained of
             Inl e \<Rightarrow> Inl e
           | Inr (sz, retained') \<Rightarrow> Inr (sz, retained'(nodeID \<mapsto> sz))))"
  by (simp only: numeral_eq_Suc computeRetained.simps)

lemmas graph_defs = SetRoots_def AddObject_def NewMemGraph_def GetRoots_def ForEachObject_def
  ptrs_of_def get_list_def get0_def Let_def

lemmas dominators_defs = Dominators_def build_adj_def dfs_depth_def init_state_def visit_def
  process_vertex_def edges_into_def processEdge_def eval_def resolve_def link_def settle_def
  at_def dfs_numeral reverse_pass_numeral reverse_pass_1 upt_from_1

lemmas paths_defs = PathsToRoots_def BuildReverseEdges_def add_object_edges_def
  add_referrer_def referrers_def

text \<open>
  Scenario A: objects 1 (size 100, pointing to 2), 2 (size 50, pointing to 3) and
  3 (size 25, no pointers), with root 1. The pointer slice of 3 is nil or empty.
\<close>

definition chain :: "ObjID list option \<Rightarrow> MemGraph" where
  "chain p3 = SetRoots (AddObject (AddObject (AddObject NewMemGraph
      \<lparr>ID = 1, Type = ''root'', Size = 100, Ptrs = Some [2]\<rparr>)
      \<lparr>ID = 2, Type = ''node'', Size = 50, Ptrs = Some [3]\<rparr>)
      \<lparr>ID = 3, Type = ''leaf'', Size = 25, Ptrs = p3\<rparr>) [1]"

definition chain_idom :: "ObjID \<rightharpoonup> ObjID" where
  "chain_idom = [1 \<mapsto> 0, 2 \<mapsto> 1, 3 \<mapsto> 2]"

definition chain_tree :: "ObjID \<rightharpoonup> ObjID list" where
  "chain_tree = [0 \<mapsto> [1], 1 \<mapsto> [2], 2 \<mapsto> [3], 3 \<mapsto> []]"

definition chain_sizes :: "ObjID \<rightharpoonup> 64 word" where
  "chain_sizes = [0 \<mapsto> 0, 1 \<mapsto> 100, 2 \<mapsto> 50, 3 \<mapsto> 25]"

definition chain_retained :: "ObjID \<rightharpoonup> 64 word" where
  "chain_retained = [1 \<mapsto> 175, 2 \<mapsto> 75, 3 \<mapsto> 25]"

lemma chain_orders:
  assumes "iteration_order (objects (chain p3)) ord"
  shows "ord \<in> {[1, 2, 3], [1, 3, 2], [2, 1, 3], [2, 3, 1], [3, 1, 2], [3, 2, 1]}"
proof -
  have "dom (objects (chain p3)) = {1, 2, 3}"
    by (auto simp: chain_def graph_defs)
  with assms have "distinct ord" "set ord = {1, 2, 3}" by (simp_all add: iteration_order_def)
  then show ?thesis by (rule orders_of_3) simp_all
qed

lemma chain_idom_orders:
  assumes "iteration_order chain_idom ord"
  shows "ord \<in> {[1, 2, 3], [1, 3, 2], [2, 1, 3], [2, 3, 1], [3, 1, 2], [3, 2, 1]}"
proof -
  have "dom chain_idom = {1, 2, 3}" by (auto simp: chain_idom_def)
  with assms have "distinct ord" "set ord = {1, 2, 3}" by (simp_all add: iteration_order_def)
  then show ?thesis by (rule orders_of_3) simp_all
qed

lemma chain_Dominators:
  assumes "p3 = None \<or> p3 = Some []" and "iteration_order (objects (chain p3)) ord"
  shows "Dominators ord (chain p3) = Inr chain_idom"
  using assms(1) chain_orders [OF assms(2)]
  by (elim disjE insertE emptyE; simp add: chain_def chain_idom_def graph_defs dominators_defs fun_eq_iff)

lemma chain_PathsToRoots:
  assumes "p3 = None \<or> p3 = Some []" and "iteration_order (objects (chain p3)) ord"
  shows "PathsToRoots ord (chain p3) 3 5 = [[3, 2, 1]]"
  using assms(1) chain_orders [OF assms(2)]
  by (elim disjE insertE emptyE; simp add: chain_def graph_defs paths_defs)

lemma chain_DominatorTree:
  assumes "iteration_order chain_idom ord1" and "iteration_order chain_idom ord2"
  shows "DominatorTree ord1 ord2 chain_idom = chain_tree"
proof -
  have init: "foldl (\<lambda>tree node. case chain_idom node of None \<Rightarrow> tree | Some d \<Rightarrow> tree(node \<mapsto> []))
      Map.empty ord1 = [1 \<mapsto> [], 2 \<mapsto> [], 3 \<mapsto> []]"
    using chain_idom_orders [OF assms(1)]
    by (elim insertE emptyE; simp add: chain_idom_def fun_eq_iff)
  show ?thesis
    unfolding DominatorTree_def init
    using chain_idom_orders [OF assms(2)]
    by (elim insertE emptyE; simp add: chain_idom_def chain_tree_def get_list_def fun_eq_iff)
qed

lemma chain_object_sizes:
  assumes "p3 = None \<or> p3 = Some []" and "iteration_order (objects (chain p3)) ord"
  shows "object_sizes (ForEachObject ord (chain p3)) = chain_sizes"
  using assms(1) chain_orders [OF assms(2)]
  by (elim disjE insertE emptyE; simp add: chain_def chain_sizes_def object_sizes_def graph_defs fun_eq_iff)

lemma chain_retained_of_tree:
  assumes "iteration_order chain_tree ord"
  shows "retained_of_tree ord chain_sizes chain_tree = Inr chain_retained"
proof -
  have "dom chain_tree = {0, 1, 2, 3}" by (auto simp: chain_tree_def)
  with assms have "distinct ord" "set ord = {0, 1, 2, 3}" by (simp_all add: iteration_order_def)
  then have "ord \<in> {[0, 1, 2, 3], [0, 1, 3, 2], [0, 2, 1, 3], [0, 2, 3, 1], [0, 3, 1, 2], [0, 3, 2, 1],
    [1, 0, 2, 3], [1, 0, 3, 2], [1, 2, 0, 3], [1, 2, 3, 0], [1, 3, 0, 2], [1, 3, 2, 0],
    [2, 0, 1, 3], [2, 0, 3, 1], [2, 1, 0, 3], [2, 1, 3, 0], [2, 3, 0, 1], [2, 3, 1, 0],
    [3, 0, 1, 2], [3, 0, 2, 1], [3, 1, 0, 2], [3, 1, 2, 0], [3, 2, 0, 1], [3, 2, 1, 0]}"
    by (rule orders_of_4) simp
  then show ?thesis
    by (elim insertE emptyE; simp add: retained_of_tree_def chain_tree_def chain_sizes_def
        chain_retained_def get_list_def get0_def computeRetained_numeral fun_eq_iff)
qed

text \<open>
  C3. On the linear chain, for every iteration order of the maps involved,
  \<^verbatim>\<open>Dominators\<close> returns exactly \<open>{1: 0, 2: 1, 3: 2}\<close> (0 is the super-root),
  \<^verbatim>\<open>RetainedSize\<close> returns exactly \<open>{1: 175, 2: 75, 3: 25}\<close>, and
  \<^verbatim>\<open>PathsToRoots(g, 3, 5)\<close> returns exactly the one path \<open>[3, 2, 1]\<close>.
\<close>

theorem linear_chain_results:
  assumes "p3 = None \<or> p3 = Some []"
    and "iteration_order (objects (chain p3)) ord"
    and "retained_orders_ok os (chain p3)"
    and "iteration_order (objects (chain p3)) ord'"
  shows "Dominators ord (chain p3) = Inr [1 \<mapsto> 0, 2 \<mapsto> 1, 3 \<mapsto> 2] \<and>
         RetainedSize os (chain p3) = Inr [1 \<mapsto> 175, 2 \<mapsto> 75, 3 \<mapsto> 25] \<and>
         PathsToRoots ord' (chain p3) 3 5 = [[3, 2, 1]]"
proof -
  have d: "Dominators (dominators_order os) (chain p3) = Inr chain_idom"
    using assms(1,3) by (intro chain_Dominators) (simp_all add: retained_orders_ok_def)
  from assms(3) have os:
    "iteration_order chain_idom (tree_init_order os)"
    "iteration_order chain_idom (tree_fill_order os)"
    "iteration_order (DominatorTree (tree_init_order os) (tree_fill_order os) chain_idom) (nodes_order os)"
    "iteration_order (objects (chain p3)) (sizes_order os)"
    by (simp_all add: retained_orders_ok_def d)
  have t: "DominatorTree (tree_init_order os) (tree_fill_order os) chain_idom = chain_tree"
    using os(1,2) by (rule chain_DominatorTree)
  have s: "object_sizes (ForEachObject (sizes_order os) (chain p3)) = chain_sizes"
    using assms(1) os(4) by (rule chain_object_sizes)
  have "RetainedSize os (chain p3) = retained_of_tree (nodes_order os) chain_sizes chain_tree"
    by (simp add: RetainedSize_def d t s)
  also have "\<dots> = Inr chain_retained"
    using os(3) unfolding t by (rule chain_retained_of_tree)
  finally have r: "RetainedSize os (chain p3) = Inr chain_retained" .
  show ?thesis
    using chain_Dominators [OF assms(1,2)] r chain_PathsToRoots [OF assms(1,4)]
    by (simp add: chain_idom_def chain_retained_def)
qed

theorem linear_chain_results_witness:
  "retained_orders_ok
     \<lparr>dominators_order = [1, 2, 3], tree_init_order = [1, 2, 3], tree_fill_order = [1, 2, 3],
      sizes_order = [1, 2, 3], nodes_order = [0, 1, 2, 3]\<rparr> (chain None) \<and>
   iteration_order (objects (chain None)) [3, 1, 2] \<and>
   Dominators [3, 1, 2] (chain None) = Inr [1 \<mapsto> 0, 2 \<mapsto> 1, 3 \<mapsto> 2] \<and>
   RetainedSize
     \<lparr>dominators_order = [1, 2, 3], tree_init_order = [1, 2, 3], tree_fill_order = [1, 2, 3],
      sizes_order = [1, 2, 3], nodes_order = [0, 1, 2, 3]\<rparr> (chain None)
     = Inr [1 \<mapsto> 175, 2 \<mapsto> 75, 3 \<mapsto> 25] \<and>
   PathsToRoots [3, 1, 2] (chain None) 3 5 = [[3, 2, 1]]"
proof -
  let ?os = "\<lparr>dominators_order = [1, 2, 3], tree_init_order = [1, 2, 3], tree_fill_order = [1, 2, 3],
      sizes_order = [1, 2, 3], nodes_order = [0, 1, 2, 3]\<rparr>"
  have o: "iteration_order (objects (chain None)) [1, 2, 3]"
      "iteration_order (objects (chain None)) [3, 1, 2]"
    by (auto simp: iteration_order_def chain_def graph_defs)
  have i: "iteration_order chain_idom [1, 2, 3]"
    by (auto simp: iteration_order_def chain_idom_def)
  have t: "iteration_order chain_tree [0, 1, 2, 3]"
    by (auto simp: iteration_order_def chain_tree_def)
  have ok: "retained_orders_ok ?os (chain None)"
    by (simp add: retained_orders_ok_def chain_Dominators [OF _ o(1)] chain_DominatorTree [OF i i] o i t)
  from linear_chain_results [OF _ o(2) ok o(2)] ok o(2) show ?thesis by simp
qed

section \<open>The binary parser on concrete dumps\<close>

lemmas read_defs = readVarint_def ReadUvarint_def ReadUvarint_from.simps readString_def readBytes_def
  ReadFull_def then_read_def ok_def failed_def string_of_def bytes_of_def char_of_def bit_Suc_0_iff
  wrap_def wrap_error_def keep_def

lemmas parser_defs = GoHeap_Parse_def parse_def new_parser_def header_magic_def parse_records.simps
  parse_record_def parseParams_def parseType_def parseObject_def parseOtherRoot_def
  object_fields.simps type_name_of_def slice_def decode_pointer_def le_uint_def be_uint_def
  finalize_def tag_defs Let_def

lemma skip_varints_numeral:
  "skip_varints (numeral k) bs =
     (case readVarint bs of
        (Inl e, bs') \<Rightarrow> (Inl e, bs')
      | (Inr v, bs') \<Rightarrow> skip_varints (pred_numeral k) bs')"
  by (simp only: numeral_eq_Suc skip_varints.simps)

lemma read_varints_numeral:
  "read_varints (numeral k) bs =
     (case readVarint bs of
        (Inl e, bs') \<Rightarrow> (Inl e, bs')
      | (Inr v, bs') \<Rightarrow>
          (case read_varints (pred_numeral k) bs' of
             (Inl e, bs'') \<Rightarrow> (Inl e, bs'')
           | (Inr vs, bs'') \<Rightarrow> (Inr (v # vs), bs'')))"
  by (simp only: numeral_eq_Suc read_varints.simps)

lemma replicate_at_numeral: "replicate (numeral k) x = x # replicate (pred_numeral k) x"
  by (simp add: numeral_eq_Suc)

text \<open>
  Scenario F, byte by byte: the header; a Params record (little-endian, 8-byte pointers,
  heap bounds 0, \<open>amd64\<close>, \<open>go1.20.0\<close>, one CPU); the Type at 0x1000 of size 16 named \<open>T\<close>;
  an Object at 0x2000 whose 16 bytes hold 0x1000 and, at offset 8, 0x2010, with one
  pointer field at offset 8; an Object at 0x2010 whose 16 bytes hold 0x1000 and 0, with
  no field; an OtherRoot \<open>root\<close> for 0x2000; EOF.
\<close>

definition scenario_F :: "byte list" where
  "scenario_F = header_magic
     @ [6, 0, 8, 0, 0, 5] @ bytes_of ''amd64'' @ [8] @ bytes_of ''go1.20.0'' @ [1]
     @ [3, 0x80, 0x20, 16, 1] @ bytes_of ''T'' @ [0]
     @ [1, 0x80, 0x40, 16] @ [0, 0x10, 0, 0, 0, 0, 0, 0, 0x10, 0x20, 0, 0, 0, 0, 0, 0] @ [1, 8, 0]
     @ [1, 0x90, 0x40, 16] @ [0, 0x10, 0, 0, 0, 0, 0, 0, 0, 0, 0, 0, 0, 0, 0, 0] @ [0]
     @ [2, 4] @ bytes_of ''root'' @ [0x80, 0x40]
     @ [0]"

text \<open>
  C1. The parser reads the pointer of the first object (the field loop returns it),
  and still the graph it builds has two objects of type \<open>T\<close>, the root 0, and an empty
  pointer list in both objects: the id 1 of the second object is not in the pointer list
  of the first.
\<close>

theorem scenario_F_graph:
  "object_fields False 8 [0, 0x10, 0, 0, 0, 0, 0, 0, 0x10, 0x20, 0, 0, 0, 0, 0, 0] [] [1, 8, 0]
     = (Inr [0x2010], []) \<and>
   GoHeap_Parse scenario_F =
     Inr \<lparr>objects = [0 \<mapsto> \<lparr>ID = 0, Type = ''T'', Size = 16, Ptrs = Some []\<rparr>,
                      1 \<mapsto> \<lparr>ID = 1, Type = ''T'', Size = 16, Ptrs = Some []\<rparr>],
          roots = [0]\<rparr>"
  by (simp add: scenario_F_def read_defs parser_defs graph_defs)

text \<open>
  C6. A MemStats record of 61 varints, here each of value 20. \<^verbatim>\<open>parseMemStats\<close> skips 8
  of them and leaves 53 before the next tag, so that the record loop takes the ninth for
  a tag; \<^verbatim>\<open>parseMemStatsFull\<close> of records.go reads all 61. When the varints are 0, the
  ninth ends the parse as an EOF record, whatever follows.
\<close>

theorem parseMemStats_skips_8:
  "parseMemStats (replicate 61 20 @ rest) = (Inr (), replicate 53 20 @ rest) \<and>
   parseMemStatsFull (replicate 61 20 @ rest) = (Inr (replicate 12 20), rest) \<and>
   GoHeap_Parse (header_magic @ [10] @ replicate 61 20 @ [0])
     = Inl (Wrapped ''parsing heap dump'' (UnknownTag 20)) \<and>
   GoHeap_Parse (header_magic @ [10] @ replicate 61 0 @ [20])
     = Inr \<lparr>objects = Map.empty, roots = []\<rparr>"
  by (simp add: parseMemStats_def parseMemStatsFull_def replicate_at_numeral skip_varints_numeral
      read_varints_numeral read_defs parser_defs graph_defs)

section \<open>What a failed read leaves in the parameters\<close>

lemma Uvarint_returned_from_value:
  "ReadUvarint_from i x bs = (Inr v, r) \<Longrightarrow> Uvarint_returned_from i x bs = v"
proof (induction i x bs rule: ReadUvarint_from.induct)
  case (1 i x bs)
  show ?case
  proof (cases "i \<ge> 10")
    case True
    with "1.prems" show ?thesis by (simp add: ReadUvarint_from.simps [of i])
  next
    case False
    note small = this
    show ?thesis
    proof (cases bs)
      case Nil
      with "1.prems" small show ?thesis
        by (auto simp: ReadUvarint_from.simps [of i] split: if_splits)
    next
      case (Cons b rest)
      show ?thesis
      proof (cases "b < 0x80")
        case True
        with "1.prems" small Cons show ?thesis
          by (auto simp: ReadUvarint_from.simps [of i] Uvarint_returned_from.simps [of i]
              split: if_splits)
      next
        case False
        with "1.prems" small Cons
        have "ReadUvarint_from (Suc i) (x OR push_bit (7 * i) (ucast (b AND 0x7f))) rest = (Inr v, r)"
          by (simp add: ReadUvarint_from.simps [of i])
        from "1.IH" [OF small Cons False this] small Cons False show ?thesis
          by (simp add: Uvarint_returned_from.simps [of i])
      qed
    qed
  qed
qed

text \<open>When the read succeeds, the number returned is the number read.\<close>

lemma stream_readVarint_returned_value:
  "stream_readVarint bs = (Inr v, r) \<Longrightarrow> stream_readVarint_returned bs = v"
  unfolding stream_readVarint_def stream_readVarint_returned_def ReadUvarint_def
    Uvarint_returned_def
  by (rule Uvarint_returned_from_value)

text \<open>
  A parameter record that ends inside the pointer size, after the group \<open>0x84\<close>: the
  read fails with \<open>ErrUnexpectedEOF\<close> and the pointer size is left at 4.
\<close>

lemma parseParams_truncated_pointer_size:
  "stream_parseParams st [0, 0x84] =
     (Some ErrUnexpectedEOF, set_params (\<lambda>ps. ps\<lparr>BigEndian := False, PointerSize := 4\<rparr>) st, [])"
  by (simp add: stream_parseParams_def and_then_def store_def assign_def set_params_def
      stream_readVarint_def stream_readVarint_returned_def ReadUvarint_def Uvarint_returned_def
      ReadUvarint_from.simps Uvarint_returned_from.simps)

section \<open>The error budget of the streaming parser\<close>

text \<open>Reading records and calling callbacks changes neither the error count nor its maximum.\<close>

definition budget_kept :: "'u StreamingParser \<Rightarrow> 'u StreamingParser \<Rightarrow> bool" where
  "budget_kept st st' \<longleftrightarrow> maxErrors st' = maxErrors st \<and> errorCount st' = errorCount st"

definition keeps_budget :: "'u StreamingParser step \<Rightarrow> bool" where
  "keeps_budget a \<longleftrightarrow> (\<forall>st bs r st' bs'. a st bs = (r, st', bs') \<longrightarrow> budget_kept st st')"

lemma keeps_budgetD: "keeps_budget a \<Longrightarrow> a st bs = (r, st', bs') \<Longrightarrow> budget_kept st st'"
  unfolding keeps_budget_def by blast

lemma invoke_budget: "invoke cb st = (r, st') \<Longrightarrow> budget_kept st st'"
  by (auto simp: invoke_def budget_kept_def split: option.splits prod.splits)

lemma keeps_budget_store:
  assumes "\<And>x st. budget_kept st (f x st)"
  shows "keeps_budget (store m f)"
  using assms by (auto simp: keeps_budget_def store_def budget_kept_def split: prod.splits sum.splits)

lemma keeps_budget_assign:
  assumes "\<And>x st. budget_kept st (f x st)"
  shows "keeps_budget (assign m returned f)"
  using assms by (auto simp: keeps_budget_def assign_def budget_kept_def split: prod.splits sum.splits)

lemma keeps_budget_set_params: "budget_kept st (set_params f st)"
  by (simp add: budget_kept_def set_params_def)

lemma keeps_budget_and_then:
  assumes "keeps_budget a" "keeps_budget b"
  shows "keeps_budget (and_then a b)"
  unfolding keeps_budget_def
proof (intro allI impI)
  fix st bs r st' bs' assume run: "and_then a b st bs = (r, st', bs')"
  obtain r1 st1 bs1 where a: "a st bs = (r1, st1, bs1)" by (cases "a st bs") auto
  from assms(1) a have k1: "budget_kept st st1" by (rule keeps_budgetD)
  show "budget_kept st st'"
  proof (cases r1)
    case (Some e)
    with run a k1 show ?thesis by (simp add: and_then_def)
  next
    case None
    with run a have "b st1 bs1 = (r, st', bs')" by (simp add: and_then_def)
    with assms(2) have "budget_kept st1 st'" by (rule keeps_budgetD)
    with k1 show ?thesis by (simp add: budget_kept_def)
  qed
qed

lemma keeps_budget_read_then:
  assumes "\<And>x st r st'. k x st = (r, st') \<Longrightarrow> budget_kept st st'"
  shows "keeps_budget (read_then m k)"
  unfolding keeps_budget_def read_then_def
  using assms by (auto simp: budget_kept_def split: prod.splits sum.splits)

lemma keeps_budget_parseParams: "keeps_budget stream_parseParams"
proof -
  have last: "keeps_budget (\<lambda>st bs. case invoke (cb st) st of (r, st') \<Rightarrow> (r, st', bs))"
    for cb :: "'u StreamingParser \<Rightarrow> ('u \<Rightarrow> dump_error option \<times> 'u) option"
    by (auto simp: keeps_budget_def split: prod.splits dest: invoke_budget)
  show ?thesis
    unfolding stream_parseParams_def
    by (intro keeps_budget_and_then keeps_budget_store keeps_budget_assign
        keeps_budget_set_params last)
qed

lemma keeps_budget_parseType: "keeps_budget stream_parseType"
  unfolding stream_parseType_def
  by (rule keeps_budget_read_then) (auto dest: invoke_budget)

lemma keeps_budget_parseObject: "keeps_budget stream_parseObject"
  unfolding keeps_budget_def
proof (intro allI impI)
  fix st :: "'u StreamingParser" and bs r st' bs'
  assume "stream_parseObject st bs = (r, st', bs')"
  moreover have "keeps_budget (read_then (read_object (params st))
       (\<lambda>(addr, typeAddr, data, pointers) st.
          invoke (map_option (\<lambda>f. f addr typeAddr data pointers) (OnObject (callbacks st))) st))"
    by (rule keeps_budget_read_then) (auto dest: invoke_budget)
  ultimately show "budget_kept st st'"
    unfolding stream_parseObject_def by (rule keeps_budgetD [rotated])
qed

lemma keeps_budget_parseRoot: "keeps_budget stream_parseRoot"
  unfolding stream_parseRoot_def
  by (rule keeps_budget_read_then) (auto dest: invoke_budget)

lemma keeps_budget_parseGoroutine: "keeps_budget stream_parseGoroutine"
  unfolding stream_parseGoroutine_def
  by (rule keeps_budget_read_then) (auto dest: invoke_budget)

text \<open>\<^verbatim>\<open>handleError\<close> counts one error, and lets the loop go on only within the maximum.\<close>

lemma handleError_budget:
  assumes "handleError err st bs = (b, st', bs')"
  shows "maxErrors st' = maxErrors st \<and> errorCount st' = errorCount st + 1 \<and>
         (b \<longrightarrow> errorCount st' \<le> maxErrors st')"
proof -
  let ?st1 = "st\<lparr>errorCount := errorCount st + 1\<rparr>"
  obtain r st2 where i: "invoke (map_option (\<lambda>f. f err (skipOnError ?st1)) (OnError (callbacks ?st1))) ?st1 = (r, st2)"
    by (cases "invoke (map_option (\<lambda>f. f err (skipOnError ?st1)) (OnError (callbacks ?st1))) ?st1") auto
  from invoke_budget [OF i] have k: "maxErrors st2 = maxErrors st" "errorCount st2 = errorCount st + 1"
    by (simp_all add: budget_kept_def)
  from assms i have "(b, st', bs') = (case r of Some e \<Rightarrow> (False, st2, bs) | None \<Rightarrow> after_callback st2 bs)"
    by (simp add: handleError_def Let_def)
  with k show ?thesis
    by (cases r) (auto simp: after_callback_def split: if_splits)
qed

lemma handleError_over_budget:
  assumes "maxErrors st \<le> errorCount st"
  shows "fst (handleError err st bs) = False"
proof -
  obtain b st' bs' where h: "handleError err st bs = (b, st', bs')"
    by (cases "handleError err st bs") auto
  from handleError_budget [OF h] assms have "\<not> b" by auto
  with h show ?thesis by simp
qed

lemma recover_Stop:
  assumes "recover reported ret st bs = Stop r st'"
  shows "r = Some ret \<and> maxErrors st' = maxErrors st \<and>
         errorCount st \<le> errorCount st' \<and> errorCount st' \<le> errorCount st + 1"
proof (cases "ret = Panic")
  case True
  with assms show ?thesis by (simp add: recover_def)
next
  case False
  obtain b st1 bs1 where h: "handleError reported st bs = (b, st1, bs1)"
    by (cases "handleError reported st bs") auto
  with assms False have "r = Some ret" "st' = st1"
    by (auto simp: recover_def split: bool.splits)
  with handleError_budget [OF h] show ?thesis by simp
qed

lemma recover_Continue:
  assumes "recover reported ret st bs = Continue st' bs'"
  shows "maxErrors st' = maxErrors st \<and> errorCount st' = errorCount st + 1 \<and>
         errorCount st' \<le> maxErrors st'"
proof -
  obtain b st1 bs1 where h: "handleError reported st bs = (b, st1, bs1)"
    by (cases "handleError reported st bs") auto
  with assms have "b" "st' = st1"
    by (auto simp: recover_def split: bool.splits if_splits)
  with handleError_budget [OF h] show ?thesis by simp
qed

lemma recover_over_budget:
  assumes "maxErrors st \<le> errorCount st"
  shows "\<exists>st'. recover reported ret st bs = Stop (Some ret) st'"
proof (cases "ret = Panic")
  case True
  then show ?thesis by (simp add: recover_def)
next
  case False
  obtain b st1 bs1 where h: "handleError reported st bs = (b, st1, bs1)"
    by (cases "handleError reported st bs") auto
  with handleError_over_budget [OF assms, of reported bs] have "\<not> b" by simp
  with h False show ?thesis by (simp add: recover_def)
qed

text \<open>Without an \<^verbatim>\<open>OnError\<close> callback, the loop goes on exactly within the maximum and when asked to skip.\<close>

lemma handleError_goes_on:
  assumes "OnError (callbacks st) = None"
  shows "fst (handleError err st bs) \<longleftrightarrow> errorCount st < maxErrors st \<and> skipOnError st"
  using assms by (auto simp: handleError_def Let_def invoke_def after_callback_def)

text \<open>
  The error that an iteration of the record loop meets, if any: the error of reading
  the tag, or the error of the function that reads the record, with the context that
  \<^verbatim>\<open>Parse\<close> adds to the errors of the parameters and of a type. It is what \<^verbatim>\<open>Parse\<close> is
  to return when the iteration is the one that uses up the budget.
\<close>

definition record_error :: "64 word \<Rightarrow> 'u StreamingParser \<Rightarrow> byte list \<Rightarrow> dump_error option" where
  "record_error tag st bs =
     (if tag = tagParams then map_option (wrap_error ''parsing params'') (fst (stream_parseParams st bs))
      else if tag = tagType then map_option (wrap_error ''parsing type'') (fst (stream_parseType st bs))
      else if tag = tagObject then map_option (\<lambda>err. err) (fst (stream_parseObject st bs))
      else if tag = tagOtherRoot then map_option (\<lambda>err. err) (fst (stream_parseRoot st bs))
      else if tag = tagGoroutine then map_option (\<lambda>err. err) (fst (stream_parseGoroutine st bs))
      else (case fst (skipUnknown tag bs) of Inl err \<Rightarrow> Some err | Inr u \<Rightarrow> None))"

definition iteration_error :: "'u StreamingParser \<Rightarrow> byte list \<Rightarrow> dump_error option" where
  "iteration_error st bs =
     (case stream_readVarint bs of
        (Inl err, bs1) \<Rightarrow> if err = EOF then None else Some err
      | (Inr tag, bs1) \<Rightarrow> if tag = tagEOF then None else record_error tag st bs1)"

text \<open>
  What holds of an iteration that starts in \<open>st\<close> and meets \<open>e\<close>: if \<^verbatim>\<open>Parse\<close> returns, it
  returns \<open>e\<close> and has counted at most one error; if the loop goes on, it has counted
  none, or one that is within the maximum; and when the count has reached the maximum
  before, an error makes \<^verbatim>\<open>Parse\<close> return.
\<close>

definition iteration_ok ::
  "'u StreamingParser \<Rightarrow> dump_error option \<Rightarrow> 'u StreamingParser outcome \<Rightarrow> bool" where
  "iteration_ok st e out \<longleftrightarrow>
     (case out of
        Stop r st' \<Rightarrow>
          r = e \<and> maxErrors st' = maxErrors st \<and>
          (errorCount st' = errorCount st \<or> errorCount st' = errorCount st + 1 \<and> e \<noteq> None)
      | Continue st' bs' \<Rightarrow>
          maxErrors st' = maxErrors st \<and>
          (errorCount st' = errorCount st \<or>
           errorCount st' = errorCount st + 1 \<and> errorCount st' \<le> maxErrors st')) \<and>
     (e \<noteq> None \<and> maxErrors st \<le> errorCount st \<longrightarrow> (\<exists>st'. out = Stop e st'))"

lemma iteration_ok_Continue: "budget_kept st st1 \<Longrightarrow> iteration_ok st None (Continue st1 bs)"
  by (simp add: iteration_ok_def budget_kept_def)

lemma iteration_ok_Stop: "budget_kept st st1 \<Longrightarrow> iteration_ok st r (Stop r st1)"
  by (simp add: iteration_ok_def budget_kept_def)

lemma iteration_ok_recover:
  assumes "budget_kept st st1"
  shows "iteration_ok st (Some ret) (recover reported ret st1 bs)"
proof (cases "recover reported ret st1 bs")
  case (Stop r st')
  from recover_Stop [OF Stop] assms show ?thesis
    by (auto simp: Stop iteration_ok_def budget_kept_def)
next
  case (Continue st' bs')
  from recover_Continue [OF Continue] assms show ?thesis
    by (auto simp: Continue iteration_ok_def budget_kept_def)
qed

lemma iteration_ok_parsed:
  assumes "keeps_budget a"
    and "\<And>err st1 bs1. budget_kept st st1 \<Longrightarrow> iteration_ok st (Some (w err)) (on_error err st1 bs1)"
  shows "iteration_ok st (map_option w (fst (a st bs)))
           (case a st bs of
              (Some err, st1, bs1) \<Rightarrow> on_error err st1 bs1
            | (None, st1, bs1) \<Rightarrow> Continue st1 bs1)"
proof -
  obtain r st1 bs1 where a: "a st bs = (r, st1, bs1)" by (cases "a st bs") auto
  from assms(1) a have k: "budget_kept st st1" by (rule keeps_budgetD)
  show ?thesis
  proof (cases r)
    case None
    with a k show ?thesis by (simp add: iteration_ok_Continue)
  next
    case (Some err)
    with a assms(2) [OF k] show ?thesis by simp
  qed
qed

lemma record_step_ok:
  fixes st :: "'u StreamingParser"
  shows "iteration_ok st (record_error tag st bs) (record_step tag st bs)"
proof -
  have same: "budget_kept st st" by (simp add: budget_kept_def)
  have params: "iteration_ok st
     (map_option (wrap_error ''parsing params'') (fst (stream_parseParams st bs)))
     (case stream_parseParams st bs of
       (Some err, st', bs') \<Rightarrow> Stop (Some (wrap_error ''parsing params'' err)) st'
     | (None, st', bs') \<Rightarrow> Continue st' bs')"
    using keeps_budget_parseParams by (rule iteration_ok_parsed) (rule iteration_ok_Stop)
  have type: "iteration_ok st
     (map_option (wrap_error ''parsing type'') (fst (stream_parseType st bs)))
     (case stream_parseType st bs of
       (Some err, st', bs') \<Rightarrow>
         if OnType (callbacks st') \<noteq> None then Stop (Some (wrap_error ''parsing type'' err)) st'
         else recover (Wrapped ''parsing type'' err) (wrap_error ''parsing type'' err) st' bs'
     | (None, st', bs') \<Rightarrow> Continue st' bs')"
    using keeps_budget_parseType
  proof (rule iteration_ok_parsed)
    fix err and st1 :: "'u StreamingParser" and bs1
    assume "budget_kept st st1"
    then show "iteration_ok st (Some (wrap_error ''parsing type'' err))
       (if OnType (callbacks st1) \<noteq> None
        then Stop (Some (wrap_error ''parsing type'' err)) st1
        else recover (Wrapped ''parsing type'' err) (wrap_error ''parsing type'' err) st1 bs1)"
      by (simp add: iteration_ok_Stop iteration_ok_recover)
  qed
  have object: "iteration_ok st
     (map_option (\<lambda>err. err) (fst (stream_parseObject st bs)))
     (case stream_parseObject st bs of
       (Some err, st', bs') \<Rightarrow> recover (Wrapped ''parsing object'' err) err st' bs'
     | (None, st', bs') \<Rightarrow> Continue st' bs')"
    using keeps_budget_parseObject by (rule iteration_ok_parsed) (rule iteration_ok_recover)
  have root: "iteration_ok st
     (map_option (\<lambda>err. err) (fst (stream_parseRoot st bs)))
     (case stream_parseRoot st bs of
       (Some err, st', bs') \<Rightarrow> recover (Wrapped ''parsing root'' err) err st' bs'
     | (None, st', bs') \<Rightarrow> Continue st' bs')"
    using keeps_budget_parseRoot by (rule iteration_ok_parsed) (rule iteration_ok_recover)
  have goroutine: "iteration_ok st
     (map_option (\<lambda>err. err) (fst (stream_parseGoroutine st bs)))
     (case stream_parseGoroutine st bs of
       (Some err, st', bs') \<Rightarrow> recover (Wrapped ''parsing goroutine'' err) err st' bs'
     | (None, st', bs') \<Rightarrow> Continue st' bs')"
    using keeps_budget_parseGoroutine by (rule iteration_ok_parsed) (rule iteration_ok_recover)
  have unknown: "iteration_ok st
     (case fst (skipUnknown tag bs) of Inl err \<Rightarrow> Some err | Inr u \<Rightarrow> None)
     (case skipUnknown tag bs of
       (Inl err, bs') \<Rightarrow> recover (SkipFailed tag err) err st bs'
     | (Inr u, bs') \<Rightarrow> Continue st bs')"
  proof -
    obtain r bs' where r: "skipUnknown tag bs = (r, bs')" by (cases "skipUnknown tag bs") auto
    show ?thesis
    proof (cases r)
      case (Inl err)
      with r iteration_ok_recover [OF same] show ?thesis by simp
    next
      case (Inr u)
      with r iteration_ok_Continue [OF same] show ?thesis by simp
    qed
  qed
  show ?thesis
  proof (cases "tag = tagParams")
    case True
    from params show ?thesis unfolding record_step_def record_error_def if_P [OF True] .
  next
    case n1: False
    show ?thesis
    proof (cases "tag = tagType")
      case True
      from type show ?thesis
        unfolding record_step_def record_error_def if_not_P [OF n1] if_P [OF True] .
    next
      case n2: False
      show ?thesis
      proof (cases "tag = tagObject")
        case True
        from object show ?thesis
          unfolding record_step_def record_error_def if_not_P [OF n1] if_not_P [OF n2]
            if_P [OF True] .
      next
        case n3: False
        show ?thesis
        proof (cases "tag = tagOtherRoot")
          case True
          from root show ?thesis
            unfolding record_step_def record_error_def if_not_P [OF n1] if_not_P [OF n2]
              if_not_P [OF n3] if_P [OF True] .
        next
          case n4: False
          show ?thesis
          proof (cases "tag = tagGoroutine")
            case True
            from goroutine show ?thesis
              unfolding record_step_def record_error_def if_not_P [OF n1] if_not_P [OF n2]
                if_not_P [OF n3] if_not_P [OF n4] if_P [OF True] .
          next
            case n5: False
            from unknown show ?thesis
              unfolding record_step_def record_error_def if_not_P [OF n1] if_not_P [OF n2]
                if_not_P [OF n3] if_not_P [OF n4] if_not_P [OF n5] .
          qed
        qed
      qed
    qed
  qed
qed

lemma parse_iteration_ok:
  fixes st :: "'u StreamingParser"
  shows "iteration_ok st (iteration_error st bs) (parse_iteration st bs)"
proof -
  have same: "budget_kept st st" by (simp add: budget_kept_def)
  obtain v bs1 where v: "stream_readVarint bs = (v, bs1)" by (cases "stream_readVarint bs") auto
  show ?thesis
  proof (cases v)
    case (Inl err)
    show ?thesis
    proof (cases "err = EOF")
      case True
      with v Inl iteration_ok_Stop [OF same, of None] show ?thesis
        by (simp add: parse_iteration_def iteration_error_def)
    next
      case False
      with v Inl iteration_ok_recover [OF same, of err "Wrapped ''reading tag'' err" bs1]
      show ?thesis by (simp add: parse_iteration_def iteration_error_def)
    qed
  next
    case (Inr tag)
    show ?thesis
    proof (cases "tag = tagEOF")
      case True
      with v Inr iteration_ok_Stop [OF same, of None] show ?thesis
        by (simp add: parse_iteration_def iteration_error_def)
    next
      case False
      with v Inr record_step_ok [of st tag bs1] show ?thesis
        by (simp add: parse_iteration_def iteration_error_def)
    qed
  qed
qed

lemma parse_iteration_Stop:
  assumes "parse_iteration st bs = Stop r st'"
  shows "r = iteration_error st bs" and "maxErrors st' = maxErrors st"
    and "errorCount st' = errorCount st \<or> errorCount st' = errorCount st + 1 \<and> r \<noteq> None"
  using parse_iteration_ok [of st bs] by (auto simp: assms iteration_ok_def)

lemma parse_iteration_Continue:
  assumes "parse_iteration st bs = Continue st' bs'"
  shows "maxErrors st' = maxErrors st"
    and "errorCount st' = errorCount st \<or>
         errorCount st' = errorCount st + 1 \<and> errorCount st' \<le> maxErrors st"
  using parse_iteration_ok [of st bs] by (auto simp: assms iteration_ok_def)

lemma parse_iteration_over_budget:
  assumes "iteration_error st bs \<noteq> None" "maxErrors st \<le> errorCount st"
  shows "\<exists>st'. parse_iteration st bs = Stop (iteration_error st bs) st'"
  using parse_iteration_ok [of st bs] assms by (simp add: iteration_ok_def)

text \<open>
  The iterations of the record loop: \<open>iterates st bs st' bs'\<close> when the loop that starts
  in \<open>st\<close> on the stream \<open>bs\<close> comes to start an iteration in \<open>st'\<close> on \<open>bs'\<close>.
\<close>

inductive iterates ::
  "'u StreamingParser \<Rightarrow> byte list \<Rightarrow> 'u StreamingParser \<Rightarrow> byte list \<Rightarrow> bool" where
  first: "iterates st bs st bs"
| later: "parse_iteration st bs = Continue st1 bs1 \<Longrightarrow> iterates st1 bs1 st' bs'
          \<Longrightarrow> iterates st bs st' bs'"

text \<open>The loop goes on only with a count that it has not changed or that is within the maximum.\<close>

lemma iterates_budget:
  assumes "iterates st bs st' bs'"
  shows "maxErrors st' = maxErrors st \<and>
         (errorCount st' = errorCount st \<or>
          errorCount st < errorCount st' \<and> errorCount st' \<le> maxErrors st)"
  using assms
proof (induction rule: iterates.induct)
  case (first st bs)
  show ?case by simp
next
  case (later st bs st1 bs1 st' bs')
  from parse_iteration_Continue [OF later.hyps(1)] later.IH show ?case by auto
qed

text \<open>\<^verbatim>\<open>Parse\<close> returns from the last iteration of its loop.\<close>

lemma stream_records_last:
  "stream_records st bs = (result, st') \<Longrightarrow>
     \<exists>st1 bs1. iterates st bs st1 bs1 \<and> parse_iteration st1 bs1 = Stop result st'"
proof (induction st bs rule: stream_records.induct)
  case (1 st bs)
  show ?case
  proof (cases "parse_iteration st bs")
    case (Stop r st1)
    with "1.prems" have "parse_iteration st bs = Stop result st'"
      by (simp add: stream_records.simps [of st bs])
    with iterates.first [of st bs] show ?thesis by blast
  next
    case (Continue st1 bs1)
    with "1.prems" have "stream_records st1 bs1 = (result, st')"
      by (simp add: stream_records.simps [of st bs])
    from "1.IH" [OF Continue this] obtain st2 bs2
      where "iterates st1 bs1 st2 bs2" "parse_iteration st2 bs2 = Stop result st'" by blast
    with iterates.later [OF Continue] show ?thesis by blast
  qed
qed

text \<open>
  The record loop counts at most one error above the maximum (or above the count it
  started with, should that be above the maximum already). When it has counted an
  error that took the count above the maximum, the iteration that met this error is
  the last, it started with the budget used up, and its error is the result.
\<close>

definition budget_respected ::
  "'u StreamingParser \<Rightarrow> dump_error option \<Rightarrow> 'u StreamingParser \<Rightarrow> bool" where
  "budget_respected st result st' \<longleftrightarrow>
     maxErrors st' = maxErrors st \<and> errorCount st \<le> errorCount st' \<and>
     errorCount st' \<le> max (errorCount st) (maxErrors st) + 1 \<and>
     (maxErrors st < errorCount st' \<and> errorCount st < errorCount st' \<longrightarrow> result \<noteq> None)"

lemma budget_respected_refl: "budget_respected st result st"
  by (simp add: budget_respected_def)

lemma stream_records_budget:
  assumes "stream_records st bs = (result, st')"
  shows "budget_respected st result st'"
proof -
  from stream_records_last [OF assms] obtain st1 bs1
    where i: "iterates st bs st1 bs1" and s: "parse_iteration st1 bs1 = Stop result st'" by blast
  from iterates_budget [OF i] parse_iteration_Stop(2,3) [OF s]
  show ?thesis unfolding budget_respected_def by auto
qed

lemma stream_records_last_error:
  assumes run: "stream_records st bs = (result, st')"
    and over: "maxErrors st < errorCount st'" "errorCount st < errorCount st'"
  shows "\<exists>st1 bs1. iterates st bs st1 bs1 \<and> maxErrors st1 \<le> errorCount st1 \<and>
           errorCount st' = errorCount st1 + 1 \<and> parse_iteration st1 bs1 = Stop result st' \<and>
           iteration_error st1 bs1 = result \<and> result \<noteq> None"
proof -
  from stream_records_last [OF run] obtain st1 bs1
    where i: "iterates st bs st1 bs1" and s: "parse_iteration st1 bs1 = Stop result st'" by blast
  from iterates_budget [OF i] parse_iteration_Stop(3) [OF s] over
  have c: "errorCount st' = errorCount st1 + 1" "result \<noteq> None" by auto
  with iterates_budget [OF i] over have "maxErrors st1 \<le> errorCount st1" by auto
  with i s c parse_iteration_Stop(1) [OF s] show ?thesis by auto
qed

lemma header_magic_length: "length header_magic = 16"
  by (simp add: header_magic_def bytes_of_def)

lemma Stream_Parse_records:
  assumes "Stream_Parse p input = (result, p')" "errorCount p < errorCount p'"
  shows "stream_records p (drop 16 input) = (result, p')"
proof -
  obtain h bs1 where h: "ReadFull 16 input = (h, bs1)" by (cases "ReadFull 16 input") auto
  show ?thesis
  proof (cases h)
    case (Inl e)
    with assms h show ?thesis by (simp add: Stream_Parse_def)
  next
    case (Inr header)
    with h have "bs1 = drop 16 input" by (auto simp: ReadFull_def split: if_splits)
    with assms h Inr show ?thesis by (auto simp: Stream_Parse_def split: if_splits)
  qed
qed

text \<open>
  C5. A new streaming parser has the maximum error count 100 and skips on error, and
  without an \<^verbatim>\<open>OnError\<close> callback the loop goes on after an error exactly when the count
  is within the maximum and the parser is to skip. For every input, all callbacks and
  every configured maximum: \<^verbatim>\<open>Parse\<close> counts at most one error above the maximum, and with
  such a count its result is an error. When \<^verbatim>\<open>Parse\<close> has counted an error that took the
  count above the maximum, the iteration of its loop that met this error is the last
  one, and \<^verbatim>\<open>Parse\<close> returns the error that this iteration met. An iteration that starts
  with the budget used up and meets an error makes \<^verbatim>\<open>Parse\<close> return this error, and so
  does the recovery pattern.
\<close>

theorem streaming_error_budget:
  "maxErrors (NewStreamingParser cbs u) = 100 \<and> skipOnError (NewStreamingParser cbs u) \<and>
   errorCount (NewStreamingParser cbs u) = 0 \<and>
   (OnError (callbacks q) = None \<longrightarrow>
      (fst (handleError reported q bs) \<longleftrightarrow> errorCount q < maxErrors q \<and> skipOnError q)) \<and>
   (Stream_Parse p input = (result, p') \<longrightarrow>
      maxErrors p' = maxErrors p \<and> errorCount p \<le> errorCount p' \<and>
      errorCount p' \<le> max (errorCount p) (maxErrors p) + 1 \<and>
      (maxErrors p < errorCount p' \<and> errorCount p < errorCount p' \<longrightarrow> result \<noteq> None)) \<and>
   (Stream_Parse p input = (result, p') \<and> maxErrors p < errorCount p' \<and>
    errorCount p < errorCount p' \<longrightarrow>
      (\<exists>st rest. iterates p (drop 16 input) st rest \<and> maxErrors st \<le> errorCount st \<and>
         errorCount p' = errorCount st + 1 \<and> parse_iteration st rest = Stop result p' \<and>
         iteration_error st rest = result \<and> result \<noteq> None)) \<and>
   (iteration_error q bs \<noteq> None \<and> maxErrors q \<le> errorCount q \<longrightarrow>
      (\<exists>q'. parse_iteration q bs = Stop (iteration_error q bs) q')) \<and>
   (maxErrors q \<le> errorCount q \<longrightarrow> (\<exists>q'. recover reported err q bs = Stop (Some err) q'))"
proof -
  have "budget_respected p result p'" if run: "Stream_Parse p input = (result, p')"
  proof -
    obtain h bs1 where h: "ReadFull 16 input = (h, bs1)" by (cases "ReadFull 16 input") auto
    show ?thesis
    proof (cases h)
      case (Inl e)
      with run h show ?thesis by (auto simp: Stream_Parse_def budget_respected_refl)
    next
      case (Inr header)
      show ?thesis
      proof (cases "header = header_magic")
        case False
        with run h Inr show ?thesis by (auto simp: Stream_Parse_def budget_respected_refl)
      next
        case True
        with run h Inr have "stream_records p bs1 = (result, p')" by (simp add: Stream_Parse_def)
        then show ?thesis by (rule stream_records_budget)
      qed
    qed
  qed
  then have bound: "Stream_Parse p input = (result, p') \<longrightarrow>
      maxErrors p' = maxErrors p \<and> errorCount p \<le> errorCount p' \<and>
      errorCount p' \<le> max (errorCount p) (maxErrors p) + 1 \<and>
      (maxErrors p < errorCount p' \<and> errorCount p < errorCount p' \<longrightarrow> result \<noteq> None)"
    by (simp add: budget_respected_def)
  have last: "Stream_Parse p input = (result, p') \<and> maxErrors p < errorCount p' \<and>
    errorCount p < errorCount p' \<longrightarrow>
      (\<exists>st rest. iterates p (drop 16 input) st rest \<and> maxErrors st \<le> errorCount st \<and>
         errorCount p' = errorCount st + 1 \<and> parse_iteration st rest = Stop result p' \<and>
         iteration_error st rest = result \<and> result \<noteq> None)"
  proof (intro impI, elim conjE)
    assume run: "Stream_Parse p input = (result, p')"
      and over: "maxErrors p < errorCount p'" "errorCount p < errorCount p'"
    from Stream_Parse_records [OF run over(2)] over
    show "\<exists>st rest. iterates p (drop 16 input) st rest \<and> maxErrors st \<le> errorCount st \<and>
         errorCount p' = errorCount st + 1 \<and> parse_iteration st rest = Stop result p' \<and>
         iteration_error st rest = result \<and> result \<noteq> None"
      by (rule stream_records_last_error)
  qed
  have stops: "iteration_error q bs \<noteq> None \<and> maxErrors q \<le> errorCount q \<longrightarrow>
      (\<exists>q'. parse_iteration q bs = Stop (iteration_error q bs) q')"
    using parse_iteration_over_budget [of q bs] by blast
  have goes_on: "OnError (callbacks q) = None \<longrightarrow>
      (fst (handleError reported q bs) \<longleftrightarrow> errorCount q < maxErrors q \<and> skipOnError q)"
    using handleError_goes_on [of q reported bs] by blast
  have pattern: "maxErrors q \<le> errorCount q \<longrightarrow> (\<exists>q'. recover reported err q bs = Stop (Some err) q')"
    using recover_over_budget [of q reported err bs] by blast
  have defaults: "maxErrors (NewStreamingParser cbs u) = 100" "skipOnError (NewStreamingParser cbs u)"
    "errorCount (NewStreamingParser cbs u) = 0"
    by (simp_all add: NewStreamingParser_def)
  from defaults goes_on bound last stops pattern show ?thesis by (intro conjI)
qed

lemma seek_from_numeral:
  "seek_from (numeral k) (b # rest) =
     (if b \<le> 17 \<and> rest \<noteq> [] then rest else seek_from (pred_numeral k) rest)"
  by (simp add: numeral_eq_Suc)

definition no_callbacks :: "unit StreamCallbacks" where
  "no_callbacks = \<lparr>OnParams = None, OnType = None, OnObject = None, OnRoot = None,
     OnGoroutine = None, OnError = None\<rparr>"

text \<open>
  With a maximum of 1, the unknown tag 99 after the header is counted and skipped, and
  the unknown tag 98 is returned.
\<close>

theorem streaming_error_budget_witness:
  "Stream_Parse (SetErrorRecovery (NewStreamingParser no_callbacks ()) 1 True)
       (header_magic @ [99, 0, 98, 0])
     = (Some (UnknownTag 98),
        (SetErrorRecovery (NewStreamingParser no_callbacks ()) 1 True)\<lparr>errorCount := 2\<rparr>) \<and>
   (\<exists>st rest. iterates (SetErrorRecovery (NewStreamingParser no_callbacks ()) 1 True)
         [99, 0, 98, 0] st rest \<and>
       errorCount st = 1 \<and> iteration_error st rest = Some (UnknownTag 98)) \<and>
   fst (handleError (UnknownTag 99) (SetErrorRecovery (NewStreamingParser no_callbacks ()) 1 True)
     [0, 98, 0]) \<and>
   (\<exists>q'. parse_iteration ((SetErrorRecovery (NewStreamingParser no_callbacks ()) 1 True)\<lparr>errorCount := 1\<rparr>)
           [98, 0] = Stop (Some (UnknownTag 98)) q') \<and>
   (\<exists>q'. recover (SkipFailed 98 (UnknownTag 98)) (UnknownTag 98)
           ((SetErrorRecovery (NewStreamingParser no_callbacks ()) 1 True)\<lparr>errorCount := 1\<rparr>) []
         = Stop (Some (UnknownTag 98)) q') \<and>
   maxErrors (NewStreamingParser no_callbacks ()) = 100"
proof -
  let ?p = "SetErrorRecovery (NewStreamingParser no_callbacks ()) 1 True"
  let ?q = "?p\<lparr>errorCount := 1\<rparr>"
  note defs = Stream_Parse_def stream_records.simps parse_iteration_def record_step_def
    skipUnknown_def recover_def handleError_def after_callback_def invoke_def no_callbacks_def
    SetErrorRecovery_def NewStreamingParser_def stream_readVarint_def seekToNextRecord_def
    ReadUvarint_def ReadUvarint_from.simps ReadFull_def failed_def header_magic_def
    bytes_of_def tag_defs Let_def
  have run: "Stream_Parse ?p (header_magic @ [99, 0, 98, 0])
      = (Some (UnknownTag 98), ?p\<lparr>errorCount := 2\<rparr>)"
    by (simp add: defs seek_from_numeral)
  have over: "maxErrors ?p < errorCount (?p\<lparr>errorCount := 2\<rparr>)"
    "errorCount ?p < errorCount (?p\<lparr>errorCount := 2\<rparr>)"
    "maxErrors ?q \<le> errorCount ?q" "OnError (callbacks ?p) = None"
    "errorCount ?p < maxErrors ?p \<and> skipOnError ?p"
    by (simp_all add: SetErrorRecovery_def NewStreamingParser_def no_callbacks_def)
  have met: "iteration_error ?q [98, 0] = Some (UnknownTag 98)"
    by (simp add: iteration_error_def record_error_def defs)
  have dropped: "drop 16 (header_magic @ [99, 0, 98, 0]) = [99, 0, 98, 0]"
    by (simp add: header_magic_length)
  from streaming_error_budget [of no_callbacks "()" ?p "UnknownTag 99" "[0, 98, 0]"
      ?p "header_magic @ [99, 0, 98, 0]" "Some (UnknownTag 98)" "?p\<lparr>errorCount := 2\<rparr>"
      "UnknownTag 98"]
  have a: "fst (handleError (UnknownTag 99) ?p [0, 98, 0])"
    and b: "\<exists>st rest. iterates ?p [99, 0, 98, 0] st rest \<and> errorCount st = 1 \<and>
              iteration_error st rest = Some (UnknownTag 98)"
    and d: "maxErrors (NewStreamingParser no_callbacks ()) = 100"
    using run over dropped by auto
  from streaming_error_budget [of no_callbacks "()" ?q "SkipFailed 98 (UnknownTag 98)" "[98, 0]"
      ?p "[]" None ?p "UnknownTag 98"]
  have c: "\<exists>q'. parse_iteration ?q [98, 0] = Stop (Some (UnknownTag 98)) q'"
    using met over(3) by auto
  from streaming_error_budget [of no_callbacks "()" ?q "SkipFailed 98 (UnknownTag 98)" "[]"
      ?p "[]" None ?p "UnknownTag 98"]
  have e: "\<exists>q'. recover (SkipFailed 98 (UnknownTag 98)) (UnknownTag 98) ?q [] = Stop (Some (UnknownTag 98)) q'"
    using over(3) by blast
  from run a b c d e show ?thesis by (intro conjI)
qed
section \<open>The length caps\<close>

lemma ReadUvarint_from_errors:
  "ReadUvarint_from i x bs = (Inl e, r) \<Longrightarrow> e \<in> {EOF, ErrUnexpectedEOF, ErrOverflow}"
proof (induction i x bs rule: ReadUvarint_from.induct)
  case (1 i x bs)
  show ?case
  proof (cases "i \<ge> 10")
    case True
    with "1.prems" show ?thesis by (simp add: ReadUvarint_from.simps [of i])
  next
    case False
    note small = this
    show ?thesis
    proof (cases bs)
      case Nil
      with "1.prems" small show ?thesis
        by (auto simp: ReadUvarint_from.simps [of i] split: if_splits)
    next
      case (Cons b rest)
      show ?thesis
      proof (cases "b < 0x80")
        case True
        with "1.prems" small Cons show ?thesis
          by (auto simp: ReadUvarint_from.simps [of i] split: if_splits)
      next
        case False
        with "1.prems" small Cons
        have "ReadUvarint_from (Suc i) (x OR push_bit (7 * i) (ucast (b AND 0x7f))) rest = (Inl e, r)"
          by (simp add: ReadUvarint_from.simps [of i])
        from "1.IH" [OF small Cons False this] show ?thesis .
      qed
    qed
  qed
qed

lemma ReadUvarint_errors:
  "ReadUvarint bs = (Inl e, r) \<Longrightarrow> e \<in> {EOF, ErrUnexpectedEOF, ErrOverflow}"
  unfolding ReadUvarint_def by (rule ReadUvarint_from_errors)

text \<open>What a length-prefixed read does once the length has been read.\<close>

definition capped ::
  "64 word \<Rightarrow> (64 word \<Rightarrow> dump_error) \<Rightarrow> (byte list \<Rightarrow> 'a) \<Rightarrow> 64 word \<Rightarrow> byte list \<Rightarrow> 'a reading" where
  "capped cap too_long conv n rest =
     (if cap < n then (Inl (too_long n), rest)
      else if unat n \<le> length rest then (Inr (conv (take (unat n) rest)), drop (unat n) rest)
      else (Inl (if rest = [] then EOF else ErrUnexpectedEOF), []))"

lemma length_prefixed:
  "then_read ReadUvarint (\<lambda>len.
       if len > cap then failed (too_long len)
       else then_read (ReadFull (unat len)) (\<lambda>data. ok (conv data))) bs =
     (case ReadUvarint bs of
        (Inl e, rest) \<Rightarrow> (Inl e, rest)
      | (Inr n, rest) \<Rightarrow> capped cap too_long conv n rest)"
  by (auto simp: then_read_def failed_def ok_def ReadFull_def capped_def split: prod.splits sum.splits)

lemma readString_capped:
  "readString bs = (case ReadUvarint bs of (Inl e, rest) \<Rightarrow> (Inl e, rest)
     | (Inr n, rest) \<Rightarrow> capped (2 ^ 20) StringTooLong string_of n rest)"
  unfolding readString_def readVarint_def by (rule length_prefixed)

lemma stream_readString_capped:
  "stream_readString bs = (case ReadUvarint bs of (Inl e, rest) \<Rightarrow> (Inl e, rest)
     | (Inr n, rest) \<Rightarrow> capped (2 ^ 20) StringTooLong string_of n rest)"
  unfolding stream_readString_def stream_readVarint_def by (rule length_prefixed)

lemma readBytes_capped:
  "readBytes bs = (case ReadUvarint bs of (Inl e, rest) \<Rightarrow> (Inl e, rest)
     | (Inr n, rest) \<Rightarrow> capped (2 ^ 30) ByteSliceTooLong (\<lambda>data. data) n rest)"
  unfolding readBytes_def readVarint_def by (rule length_prefixed)

lemma stream_readBytes_capped:
  "stream_readBytes bs = (case ReadUvarint bs of (Inl e, rest) \<Rightarrow> (Inl e, rest)
     | (Inr n, rest) \<Rightarrow> capped (2 ^ 30) ByteSliceTooLong (\<lambda>data. data) n rest)"
  unfolding stream_readBytes_def stream_readVarint_def by (rule length_prefixed)

lemma too_long_iff:
  assumes "\<And>n. too_long n \<notin> {EOF, ErrUnexpectedEOF, ErrOverflow}" "inj too_long"
    and "\<And>bs. f bs = (case ReadUvarint bs of (Inl e, rest) \<Rightarrow> (Inl e, rest)
     | (Inr n, rest) \<Rightarrow> capped cap too_long conv n rest)"
  shows "fst (f bs) = Inl (too_long m) \<longleftrightarrow> (\<exists>rest. ReadUvarint bs = (Inr m, rest)) \<and> cap < m"
proof -
  obtain v rest where v: "ReadUvarint bs = (v, rest)" by (cases "ReadUvarint bs") auto
  show ?thesis
  proof (cases v)
    case (Inl e)
    with v ReadUvarint_errors [of bs e rest] assms(1) [of m] assms(3) [of bs] show ?thesis by auto
  next
    case (Inr n)
    with v assms(1) [of m] assms(2) assms(3) [of bs] show ?thesis
      by (auto simp: capped_def dest: injD)
  qed
qed

text \<open>
  C9. For every stream, each of the four readers fails with its too-long error exactly
  when the declared length is above the cap (1 MiB for strings, 1 GiB for byte slices),
  an error no other failure of the reader produces; a declared length at or below the cap
  is accepted, and the data is returned when the stream holds that many bytes.
\<close>

theorem length_caps:
  "(fst (readString bs) = Inl (StringTooLong m) \<longleftrightarrow>
      (\<exists>rest. ReadUvarint bs = (Inr m, rest)) \<and> 2 ^ 20 < m) \<and>
   (fst (stream_readString bs) = Inl (StringTooLong m) \<longleftrightarrow>
      (\<exists>rest. ReadUvarint bs = (Inr m, rest)) \<and> 2 ^ 20 < m) \<and>
   (fst (readBytes bs) = Inl (ByteSliceTooLong m) \<longleftrightarrow>
      (\<exists>rest. ReadUvarint bs = (Inr m, rest)) \<and> 2 ^ 30 < m) \<and>
   (fst (stream_readBytes bs) = Inl (ByteSliceTooLong m) \<longleftrightarrow>
      (\<exists>rest. ReadUvarint bs = (Inr m, rest)) \<and> 2 ^ 30 < m) \<and>
   (ReadUvarint bs' = (Inr n, rest') \<longrightarrow> n \<le> 2 ^ 20 \<longrightarrow> unat n \<le> length rest' \<longrightarrow>
      readString bs' = (Inr (string_of (take (unat n) rest')), drop (unat n) rest') \<and>
      stream_readString bs' = (Inr (string_of (take (unat n) rest')), drop (unat n) rest')) \<and>
   (ReadUvarint bs' = (Inr n, rest') \<longrightarrow> n \<le> 2 ^ 30 \<longrightarrow> unat n \<le> length rest' \<longrightarrow>
      readBytes bs' = (Inr (take (unat n) rest'), drop (unat n) rest') \<and>
      stream_readBytes bs' = (Inr (take (unat n) rest'), drop (unat n) rest'))"
proof -
  have s: "StringTooLong k \<notin> {EOF, ErrUnexpectedEOF, ErrOverflow}" "inj StringTooLong"
    and b: "ByteSliceTooLong k \<notin> {EOF, ErrUnexpectedEOF, ErrOverflow}" "inj ByteSliceTooLong" for k
    by (simp_all add: inj_def)
  note iffs = too_long_iff [where f = readString, OF s readString_capped]
    too_long_iff [where f = stream_readString, OF s stream_readString_capped]
    too_long_iff [where f = readBytes, OF b readBytes_capped]
    too_long_iff [where f = stream_readBytes, OF b stream_readBytes_capped]
  have accept: "capped cap too_long conv n rest' = (Inr (conv (take (unat n) rest')), drop (unat n) rest')"
    if "n \<le> cap" "unat n \<le> length rest'"
    for cap too_long and conv :: "byte list \<Rightarrow> 'a"
    using that by (simp add: capped_def not_less [symmetric])
  have strings:
    "readString bs' = (Inr (string_of (take (unat n) rest')), drop (unat n) rest') \<and>
     stream_readString bs' = (Inr (string_of (take (unat n) rest')), drop (unat n) rest')"
    if "ReadUvarint bs' = (Inr n, rest')" "n \<le> 2 ^ 20" "unat n \<le> length rest'"
    using that accept [OF that(2,3)] by (simp add: readString_capped stream_readString_capped)
  have slices:
    "readBytes bs' = (Inr (take (unat n) rest'), drop (unat n) rest') \<and>
     stream_readBytes bs' = (Inr (take (unat n) rest'), drop (unat n) rest')"
    if "ReadUvarint bs' = (Inr n, rest')" "n \<le> 2 ^ 30" "unat n \<le> length rest'"
    using that accept [OF that(2,3)] by (simp add: readBytes_capped stream_readBytes_capped)
  show ?thesis
    using iffs strings slices by blast
qed

text \<open>
  The varint \<open>[0x81, 0x80, 0x40]\<close> is \<open>2^20 + 1\<close>: too long for a string. \<open>[0x80, 0x80, 0x40]\<close>
  is \<open>2^20\<close>, which passes the check of the cap. \<open>[2]\<close> declares the two bytes that follow.
\<close>

theorem length_caps_witness:
  "ReadUvarint [0x81, 0x80, 0x40] = (Inr (2 ^ 20 + 1), []) \<and>
   fst (readString [0x81, 0x80, 0x40]) = Inl (StringTooLong (2 ^ 20 + 1)) \<and>
   fst (stream_readString [0x81, 0x80, 0x40]) = Inl (StringTooLong (2 ^ 20 + 1)) \<and>
   ReadUvarint [0x80, 0x80, 0x40] = (Inr (2 ^ 20), []) \<and>
   fst (readString [0x80, 0x80, 0x40]) \<noteq> Inl (StringTooLong (2 ^ 20)) \<and>
   ReadUvarint [2, 0x68, 0x69] = (Inr 2, [0x68, 0x69]) \<and>
   readString [2, 0x68, 0x69] = (Inr ''hi'', []) \<and>
   readBytes [2, 0x68, 0x69] = (Inr [0x68, 0x69], [])"
proof -
  have v: "ReadUvarint [0x81, 0x80, 0x40] = (Inr (2 ^ 20 + 1), [])"
    "ReadUvarint [0x80, 0x80, 0x40] = (Inr (2 ^ 20), [])"
    "ReadUvarint [2, 0x68, 0x69] = (Inr 2, [0x68, 0x69])"
    by (simp_all add: ReadUvarint_def ReadUvarint_from.simps)
  have over: "(2 :: 64 word) ^ 20 < 2 ^ 20 + 1" "\<not> (2 :: 64 word) ^ 20 < 2 ^ 20" by simp_all
  have small: "(2 :: 64 word) \<le> 2 ^ 20" "(2 :: 64 word) \<le> 2 ^ 30" "unat (2 :: 64 word) \<le> length [0x68, 0x69 :: byte]"
    by simp_all
  have hi: "string_of (take (unat (2 :: 64 word)) [0x68, 0x69]) = ''hi''"
    by (simp add: string_of_def char_of_def bit_Suc_0_iff)
  from length_caps [of "[0x81, 0x80, 0x40]" "2 ^ 20 + 1" "[2, 0x68, 0x69]" 2 "[0x68, 0x69]"]
    length_caps [of "[0x80, 0x80, 0x40]" "2 ^ 20" "[2, 0x68, 0x69]" 2 "[0x68, 0x69]"]
    v over small hi
  show ?thesis by simp
qed

section \<open>Opening a dump\<close>

text \<open>The preview: what the one \<^verbatim>\<open>Read\<close> into the 4096-byte buffer delivers.\<close>

definition preview_of :: "Reader \<Rightarrow> byte list" where
  "preview_of r = take (min 4096 (max 1 (chunk r))) (content r)"

lemma take_min_length: "take (min n (length xs)) xs = take n xs"
  by (cases "n \<le> length xs") (simp_all add: min_def)

lemma try_parsers_find:
  "try_parsers registry preview input =
     (case find (\<lambda>p. CanParse p preview) registry of
        None \<Rightarrow> Inl ErrNoParser
      | Some p \<Rightarrow> Parse p input)"
  by (induction registry) simp_all

text \<open>
  C8. When the first read does not fail, \<^verbatim>\<open>Open\<close> asks the registered parsers in
  registration order whether they can parse the preview, at most 4096 bytes from the
  start of the input; the first that can is given the whole input, preview first; when
  none can, the result is \<open>ErrNoParser\<close>. \<^verbatim>\<open>Register\<close> puts a parser behind those
  registered before it.
\<close>

theorem Open_first_claiming_parser:
  assumes "failure r = None"
  shows "length (preview_of r) \<le> 4096 \<and> take (length (preview_of r)) (content r) = preview_of r \<and>
    Open registry r =
      (case find (\<lambda>p. CanParse p (preview_of r)) registry of
         None \<Rightarrow> Inl ErrNoParser
       | Some p \<Rightarrow> Parse p (content r)) \<and>
    find P (Register registry q) =
      (case find P registry of Some p \<Rightarrow> Some p | None \<Rightarrow> if P q then Some q else None)"
proof -
  have reg: "find P (Register registry q) =
      (case find P registry of Some p \<Rightarrow> Some p | None \<Rightarrow> if P q then Some q else None)"
    unfolding Register_def by (induction registry) simp_all
  have len: "length (preview_of r) \<le> 4096" "take (length (preview_of r)) (content r) = preview_of r"
    using take_min_length [of "min 4096 (max 1 (chunk r))" "content r"]
    by (simp_all add: preview_of_def min.commute)
  have "Open registry r =
      (case find (\<lambda>p. CanParse p (preview_of r)) registry of
         None \<Rightarrow> Inl ErrNoParser
       | Some p \<Rightarrow> Parse p (content r))"
  proof (cases "content r = []")
    case True
    with assms show ?thesis
      by (simp add: Open_def Read_def preview_of_def try_parsers_find)
  next
    case False
    let ?k = "min 4096 (min (max 1 (chunk r)) (length (content r)))"
    from take_min_length [of "min 4096 (max 1 (chunk r))" "content r"]
    have pre: "take ?k (content r) = preview_of r"
      by (simp add: preview_of_def min.assoc)
    have "take ?k (content r) @ drop ?k (content r) = content r"
      by (rule append_take_drop_id)
    then have full: "preview_of r @ drop ?k (content r) = content r"
      by (simp only: pre)
    from assms False pre full show ?thesis
      by (simp add: Open_def Read_def Let_def try_parsers_find split: option.split)
  qed
  with reg len show ?thesis by simp
qed

definition claims_nothing :: Parser where
  "claims_nothing = \<lparr>CanParse = (\<lambda>preview. False), Parse = (\<lambda>input. Inl ErrNoParser)\<rparr>"

text \<open>A dump that is the header and an EOF record, delivered by one read.\<close>

theorem Open_first_claiming_parser_witness:
  "failure \<lparr>content = header_magic @ [0], chunk = 4096, failure = None\<rparr> = None \<and>
   Open (Register (Register [] claims_nothing) GoHeapParser)
     \<lparr>content = header_magic @ [0], chunk = 4096, failure = None\<rparr>
     = Inr \<lparr>objects = Map.empty, roots = []\<rparr> \<and>
   Open [claims_nothing] \<lparr>content = header_magic @ [0], chunk = 4096, failure = None\<rparr>
     = Inl ErrNoParser"
proof -
  let ?r = "\<lparr>content = header_magic @ [0], chunk = 4096, failure = None\<rparr>"
  have f: "failure ?r = None" by simp
  have p: "preview_of ?r = header_magic @ [0]"
    by (simp add: preview_of_def header_magic_def bytes_of_def)
  have c: "\<not> CanParse claims_nothing (header_magic @ [0])" "CanParse GoHeapParser (header_magic @ [0])"
    by (simp_all add: claims_nothing_def GoHeapParser_def GoHeap_CanParse_def header_magic_def bytes_of_def)
  have g: "Parse GoHeapParser (header_magic @ [0]) = Inr \<lparr>objects = Map.empty, roots = []\<rparr>"
    by (simp add: GoHeapParser_def read_defs parser_defs graph_defs)
  from Open_first_claiming_parser [OF f, of "Register (Register [] claims_nothing) GoHeapParser"]
    Open_first_claiming_parser [OF f, of "[claims_nothing]"]
  show ?thesis
    by (simp add: p c g Register_def)
qed

section \<open>The JSON fixture parser and the id 0\<close>

lemma first_missing_id_Some:
  "first_missing_id i objs = Some j \<Longrightarrow> i \<le> j \<and> j - i < length objs \<and> json_ID (objs ! (j - i)) = 0"
proof (induction objs arbitrary: i)
  case Nil
  then show ?case by simp
next
  case (Cons obj objs)
  show ?case
  proof (cases "json_ID obj = 0")
    case True
    with Cons.prems show ?thesis by simp
  next
    case False
    with Cons.prems have "first_missing_id (Suc i) objs = Some j" by simp
    from Cons.IH [OF this] have "Suc i \<le> j" "j - Suc i < length objs" "json_ID (objs ! (j - Suc i)) = 0"
      by simp_all
    moreover from \<open>Suc i \<le> j\<close> have "j - i = Suc (j - Suc i)" by simp
    ultimately show ?thesis by simp
  qed
qed

lemma first_missing_id_None:
  "first_missing_id i objs = None \<longleftrightarrow> (\<forall>obj \<in> set objs. json_ID obj \<noteq> 0)"
  by (induction objs arbitrary: i) auto

lemma objects_foldl_AddObject:
  "objects (foldl (\<lambda>g obj. AddObject g (graph_object obj)) g0 objs) k =
     (if k \<in> json_ID ` set objs
      then objects (foldl (\<lambda>g obj. AddObject g (graph_object obj)) g0 objs) k
      else objects g0 k)"
  by (induction objs arbitrary: g0) (auto simp: AddObject_def graph_object_def)

text \<open>
  C10. When the objects array has an entry with id 0, \<^verbatim>\<open>JSONStub.Parse\<close> returns the
  missing-ID error for the index of the first such entry; so no graph it returns has an
  object with id 0.
\<close>

theorem JSONStub_rejects_id_0:
  assumes "decode bs = Inr dump"
  shows "((\<exists>obj \<in> set (Objects dump). json_ID obj = 0) \<longrightarrow>
           (\<exists>i < length (Objects dump).
              JSONStub_Parse decode bs = Inl (MissingID i) \<and> json_ID (Objects dump ! i) = 0)) \<and>
         (\<forall>g. JSONStub_Parse decode bs = Inr g \<longrightarrow> objects g 0 = None)"
proof (cases "first_missing_id 0 (Objects dump)")
  case None
  then have ids: "\<forall>obj \<in> set (Objects dump). json_ID obj \<noteq> 0"
    by (simp add: first_missing_id_None)
  then have "0 \<notin> json_ID ` set (Objects dump)" by auto
  then have "objects (foldl (\<lambda>g obj. AddObject g (graph_object obj)) NewMemGraph (Objects dump)) 0 = None"
    by (subst objects_foldl_AddObject) (simp add: NewMemGraph_def)
  with ids assms None show ?thesis
    by (auto simp: JSONStub_Parse_def SetRoots_def)
next
  case (Some i)
  from first_missing_id_Some [OF Some]
  have "i < length (Objects dump)" "json_ID (Objects dump ! i) = 0" by simp_all
  with assms Some show ?thesis by (auto simp: JSONStub_Parse_def)
qed

text \<open>A dump of two objects, the second without id.\<close>

theorem JSONStub_rejects_id_0_witness:
  "(\<lambda>bs. Inr \<lparr>Objects = [\<lparr>json_ID = 1, json_Type = ''a'', json_Size = 8, json_Ptrs = None\<rparr>,
                          \<lparr>json_ID = 0, json_Type = ''b'', json_Size = 8, json_Ptrs = None\<rparr>],
               Roots = Some [1]\<rparr>) [] =
     Inr \<lparr>Objects = [\<lparr>json_ID = 1, json_Type = ''a'', json_Size = 8, json_Ptrs = None\<rparr>,
                     \<lparr>json_ID = 0, json_Type = ''b'', json_Size = 8, json_Ptrs = None\<rparr>],
          Roots = Some [1]\<rparr> \<and>
   JSONStub_Parse
     (\<lambda>bs. Inr \<lparr>Objects = [\<lparr>json_ID = 1, json_Type = ''a'', json_Size = 8, json_Ptrs = None\<rparr>,
                            \<lparr>json_ID = 0, json_Type = ''b'', json_Size = 8, json_Ptrs = None\<rparr>],
                 Roots = Some [1]\<rparr>) [] = Inl (MissingID 1)"
proof -
  let ?dump = "\<lparr>Objects = [\<lparr>json_ID = 1, json_Type = ''a'', json_Size = 8, json_Ptrs = None\<rparr>,
                          \<lparr>json_ID = 0, json_Type = ''b'', json_Size = 8, json_Ptrs = None\<rparr>],
               Roots = Some [1]\<rparr>"
  let ?decode = "\<lambda>bs :: byte list. Inr ?dump :: dump_error + jsonDump"
  have d: "?decode [] = Inr ?dump" by simp
  have ex: "\<exists>obj \<in> set (Objects ?dump). json_ID obj = 0" by simp
  from JSONStub_rejects_id_0 [OF d] ex obtain i where
    i: "i < length (Objects ?dump)" "JSONStub_Parse ?decode [] = Inl (MissingID i)"
      "json_ID (Objects ?dump ! i) = 0"
    by blast
  from i(1,3) have "i = 1" by (cases i) auto
  with i(2) show ?thesis by simp
qed

section \<open>The object with id 0\<close>

text \<open>
  The first two objects of a dump get the ids 0 and 1. Here 0 is a root and points to 1.
\<close>

definition zero_rooted :: MemGraph where
  "zero_rooted = SetRoots (AddObject (AddObject NewMemGraph
      \<lparr>ID = 0, Type = ''T'', Size = 16, Ptrs = Some [1]\<rparr>)
      \<lparr>ID = 1, Type = ''T'', Size = 16, Ptrs = Some []\<rparr>) [0]"

text \<open>
  A dump of one object at address 16 with no data, and a root for that address; and the
  graph the parser builds from it.
\<close>

definition rooted_object_dump :: "byte list" where
  "rooted_object_dump = header_magic @ [1, 16, 0, 0] @ [2, 0, 16] @ [0]"

definition rooted_object :: MemGraph where
  "rooted_object =
     \<lparr>objects = [0 \<mapsto> \<lparr>ID = 0, Type = ''unknown'', Size = 0, Ptrs = Some []\<rparr>], roots = [0]\<rparr>"

text \<open>
  C2. \<^verbatim>\<open>Dominators\<close> uses the id 0 for its super-root, and the parser gives the id 0 to
  the first object of a dump. On a graph whose objects have the ids 0 and 1, with 0 a
  root, the returned map has an entry for 1 and none for the object 0, in either
  iteration order. On the graph parsed from a dump of one rooted object the returned map
  is empty: the pointer list of the object 0 has replaced the edges of the super-root.
\<close>

theorem Dominators_drops_object_zero:
  "objects zero_rooted 0 \<noteq> None \<and> 0 \<in> set (roots zero_rooted) \<and>
   Dominators [0, 1] zero_rooted = Inr [1 \<mapsto> 0] \<and>
   Dominators [1, 0] zero_rooted = Inr [1 \<mapsto> 0] \<and>
   [1 \<mapsto> 0] (0 :: ObjID) = (None :: ObjID option) \<and>
   GoHeap_Parse rooted_object_dump = Inr rooted_object \<and>
   Dominators [0] rooted_object = Inr Map.empty"
  by (simp add: zero_rooted_def rooted_object_dump_def rooted_object_def graph_defs
      dominators_defs read_defs parser_defs fun_eq_iff)

section \<open>Iteration order and the reverse-edge index\<close>








end
